theory Spec2Isabelle
  imports Main "HOL-Library.AList"
begin

section \<open>Containers and faults\<close>

text \<open>
  The netlist index of \<^verbatim>\<open>kernel/algo.h\<close> keeps two hash dictionaries and, per cell, an
  ordered \<^verbatim>\<open>std::set\<close> of signal bits.  A dictionary is an association list read with
  \<open>map_of\<close> and written with \<open>AList.update\<close>; an ordered set is the strictly increasing
  list of its elements, which is the order in which its iterators walk it.

  Signal bits are values of a type \<open>'b\<close>: the order that \<^verbatim>\<open>std::set<RTLIL::SigBit>\<close> uses is the
  linear order of \<open>'b\<close>, and the default constructed bit \<^verbatim>\<open>RTLIL::SigBit()\<close> (the constant
  \<^verbatim>\<open>State::S0\<close>) is \<open>0\<close>.  Cells are referred to by pointer; pointers are values of a type \<open>'c\<close>.
\<close>

datatype fault =
    EndIteratorDeref        \<comment> \<open>\<^verbatim>\<open>*it\<close> where \<^verbatim>\<open>it\<close> is the end of a \<^verbatim>\<open>std::set\<close>: undefined behaviour\<close>
  | EndIteratorIncrement    \<comment> \<open>\<^verbatim>\<open>it++\<close> where \<^verbatim>\<open>it\<close> is the end of a \<^verbatim>\<open>std::set\<close>: undefined behaviour\<close>
  | DictOutOfRange          \<comment> \<open>\<^verbatim>\<open>dict::at\<close> on a missing key throws \<^verbatim>\<open>std::out_of_range\<close>\<close>

type_synonym ('k, 'v) dict = "('k \<times> 'v) list"

definition dict_count :: "('k, 'v) dict \<Rightarrow> 'k \<Rightarrow> nat" where
  "dict_count d k = (case map_of d k of None \<Rightarrow> 0 | Some _ \<Rightarrow> 1)"

definition dict_at :: "('k, 'v) dict \<Rightarrow> 'k \<Rightarrow> fault + 'v" where
  "dict_at d k = (case map_of d k of None \<Rightarrow> Inl DictOutOfRange | Some v \<Rightarrow> Inr v)"

definition dict_set :: "('k, 'v) dict \<Rightarrow> 'k \<Rightarrow> 'v \<Rightarrow> ('k, 'v) dict" where
  "dict_set d k v = AList.update k v d"

definition set_insert :: "'b::linorder \<Rightarrow> 'b list \<Rightarrow> 'b list" where
  "set_insert x s = (if x \<in> set s then s else insort x s)"

definition set_insert_range :: "'b::linorder list \<Rightarrow> 'b list \<Rightarrow> 'b list" where
  "set_insert_range bits s = fold set_insert bits s"

section \<open>The netlist index\<close>

text \<open>
  A cell has a type and named port connections, each a signal (a vector of bits).  A module
  enumerates its cells as pointers; the model pairs each pointer with the cell it points to.
  \<^verbatim>\<open>CellTypes\<close> is consulted through \<^verbatim>\<open>cell_known\<close> and \<^verbatim>\<open>cell_output\<close> only, and \<^verbatim>\<open>SigMap\<close>
  through its call operator only, so both are carried as functions.  The \<^verbatim>\<open>module\<close> field of
  \<^verbatim>\<open>Netlist\<close> is never read after construction and has no field in the record.
\<close>

record ('t, 'p, 'b) Cell =
  cell_type :: 't
  connections :: "('p \<times> 'b list) list"

type_synonym ('c, 't, 'p, 'b) Module = "('c \<times> ('t, 'p, 'b) Cell) list"

record ('t, 'p) CellTypes =
  cell_known :: "'t \<Rightarrow> bool"
  cell_output :: "'t \<Rightarrow> 'p \<Rightarrow> bool"

record ('b, 'c) Netlist =
  sigmap :: "'b \<Rightarrow> 'b"
  sigbit_driver_map :: "('b, 'c) dict"
  cell_inputs_map :: "('c, 'b list) dict"

text \<open>The body of the loop over \<^verbatim>\<open>cell->connections()\<close>: one port is added to the pair
  \<open>(inputs, outputs)\<close>.\<close>

definition add_port ::
  "('t, 'p) CellTypes \<Rightarrow> ('b::linorder \<Rightarrow> 'b) \<Rightarrow> 't \<Rightarrow> 'p \<times> 'b list \<Rightarrow> 'b list \<times> 'b list
     \<Rightarrow> 'b list \<times> 'b list" where
  "add_port ct sm ty port io =
     (let bits = map sm (snd port) in
      if cell_output ct ty (fst port)
      then (fst io, set_insert_range bits (snd io))
      else (set_insert_range bits (fst io), snd io))"

definition cell_ports ::
  "('t, 'p) CellTypes \<Rightarrow> ('b::linorder \<Rightarrow> 'b) \<Rightarrow> ('t, 'p, 'b) Cell \<Rightarrow> 'b list \<times> 'b list" where
  "cell_ports ct sm cell = fold (add_port ct sm (cell_type cell)) (connections cell) ([], [])"

text \<open>The body of the loop over \<^verbatim>\<open>module->cells()\<close>.\<close>

definition setup_cell ::
  "('t, 'p) CellTypes \<Rightarrow> 'c \<times> ('t, 'p, 'b::linorder) Cell \<Rightarrow> ('b, 'c) Netlist \<Rightarrow> ('b, 'c) Netlist" where
  "setup_cell ct pc n =
     (if cell_known ct (cell_type (snd pc)) then
        (let io = cell_ports ct (sigmap n) (snd pc);
             n1 = n\<lparr>cell_inputs_map := dict_set (cell_inputs_map n) (fst pc) (fst io)\<rparr>
         in fold (\<lambda>bit m. m\<lparr>sigbit_driver_map := dict_set (sigbit_driver_map m) bit (fst pc)\<rparr>)
              (snd io) n1)
      else n)"

definition setup_netlist ::
  "('b, 'c) Netlist \<Rightarrow> ('c, 't, 'p, 'b::linorder) Module \<Rightarrow> ('t, 'p) CellTypes \<Rightarrow> ('b, 'c) Netlist" where
  "setup_netlist n module ct = fold (setup_cell ct) module n"

text \<open>\<^verbatim>\<open>Netlist(module, ct)\<close>: both dictionaries start empty, \<^verbatim>\<open>sigmap\<close> is built from the module
  (here: given), then \<^verbatim>\<open>setup_netlist\<close> runs.\<close>

definition Netlist_of ::
  "('c, 't, 'p, 'b::linorder) Module \<Rightarrow> ('b \<Rightarrow> 'b) \<Rightarrow> ('t, 'p) CellTypes \<Rightarrow> ('b, 'c) Netlist" where
  "Netlist_of module sm ct =
     setup_netlist \<lparr>sigmap = sm, sigbit_driver_map = [], cell_inputs_map = []\<rparr> module ct"

section \<open>The signal-bit cone iterator\<close>

text \<open>
  A stack entry of \<^verbatim>\<open>dfs_path_stack\<close> is a pair of iterators \<open>(first, second)\<close> into one cell's
  input set, \<open>second\<close> being its end.  The model keeps the range \<open>[first, second)\<close> as a list:
  \<^verbatim>\<open>*first\<close> is its head, \<^verbatim>\<open>first++\<close> drops the head, \<^verbatim>\<open>first != second\<close> says it is not empty.
  The top of the stack is the head of the list of frames.
\<close>

record ('b, 'c) NetlistConeWireIter =
  net :: "('b, 'c) Netlist"
  sig :: 'b
  sentinel :: bool
  dfs_path_stack :: "'b list list"
  cells_visited :: "'c set"

definition NetlistConeWireIter_sentinel :: "('b::zero, 'c) Netlist \<Rightarrow> ('b, 'c) NetlistConeWireIter" where
  "NetlistConeWireIter_sentinel n =
     \<lparr>net = n, sig = 0, sentinel = True, dfs_path_stack = [], cells_visited = {}\<rparr>"

definition NetlistConeWireIter_at :: "('b, 'c) Netlist \<Rightarrow> 'b \<Rightarrow> ('b, 'c) NetlistConeWireIter" where
  "NetlistConeWireIter_at n s =
     \<lparr>net = n, sig = s, sentinel = False, dfs_path_stack = [], cells_visited = {}\<rparr>"

definition wire_deref :: "('b, 'c) NetlistConeWireIter \<Rightarrow> 'b" where
  "wire_deref it = sig it"

definition wire_neq :: "('b, 'c) NetlistConeWireIter \<Rightarrow> ('b, 'c) NetlistConeWireIter \<Rightarrow> bool" where
  "wire_neq a b =
     (if sentinel a \<or> sentinel b then sentinel a \<noteq> sentinel b else sig a \<noteq> sig b)"

definition wire_eq :: "('b, 'c) NetlistConeWireIter \<Rightarrow> ('b, 'c) NetlistConeWireIter \<Rightarrow> bool" where
  "wire_eq a b =
     (if sentinel a \<or> sentinel b then sentinel a = sentinel b else sig a = sig b)"

function next_sig_in_dag :: "('b, 'c) NetlistConeWireIter \<Rightarrow> fault + ('b, 'c) NetlistConeWireIter" where
  "next_sig_in_dag it =
     (case dfs_path_stack it of
        [] \<Rightarrow> Inr (it\<lparr>sentinel := True\<rparr>)
      | frame # below \<Rightarrow>
          (case frame of
             [] \<Rightarrow> Inl EndIteratorIncrement
           | _ # rest \<Rightarrow>
               (case rest of
                  y # _ \<Rightarrow> Inr (it\<lparr>dfs_path_stack := rest # below, sig := y\<rparr>)
                | [] \<Rightarrow> next_sig_in_dag (it\<lparr>dfs_path_stack := below\<rparr>))))"
  by pat_completeness auto
termination
  by (relation "measure (\<lambda>it. length (dfs_path_stack it))") auto

text \<open>\<^verbatim>\<open>operator++\<close>.\<close>

definition wire_incr :: "('b, 'c) NetlistConeWireIter \<Rightarrow> fault + ('b, 'c) NetlistConeWireIter" where
  "wire_incr it =
     (if dict_count (sigbit_driver_map (net it)) (sig it) \<noteq> 0 then
        (case dict_at (sigbit_driver_map (net it)) (sig it) of
           Inl e \<Rightarrow> Inl e
         | Inr drv \<Rightarrow>
             if drv \<notin> cells_visited it then
               (case dict_at (cell_inputs_map (net it)) drv of
                  Inl e \<Rightarrow> Inl e
                | Inr inputs \<Rightarrow>
                    (case inputs of
                       [] \<Rightarrow> Inl EndIteratorDeref
                     | x # _ \<Rightarrow>
                         Inr (it\<lparr>dfs_path_stack := inputs # dfs_path_stack it,
                                 cells_visited := insert drv (cells_visited it),
                                 sig := x\<rparr>)))
             else next_sig_in_dag it)
      else next_sig_in_dag it)"


text \<open>
  What a range-based \<^verbatim>\<open>for\<close> loop over the iterable sees: while \<^verbatim>\<open>it != end()\<close> it reads
  \<^verbatim>\<open>*it\<close> and then runs \<^verbatim>\<open>++it\<close>.  The result is the list of bits read, together with either
  the fault that stopped the loop or the iterator as the loop leaves it.  The iterator
  \<^verbatim>\<open>end()\<close> is the sentinel for the index the running iterator refers to.
\<close>

function wire_drain ::
  "('b::zero, 'c) NetlistConeWireIter \<Rightarrow> 'b list \<times> (fault + ('b, 'c) NetlistConeWireIter)" where
  "wire_drain it =
     (if wire_neq it (NetlistConeWireIter_sentinel (net it)) then
        (case wire_incr it of
           Inl e \<Rightarrow> ([wire_deref it], Inl e)
         | Inr it' \<Rightarrow> (wire_deref it # fst (wire_drain it'), snd (wire_drain it')))
      else ([], Inr it))"
  by pat_completeness auto

record ('b, 'c) NetlistConeWireIterable =
  wire_net :: "('b, 'c) Netlist"
  wire_sig :: 'b

definition wire_begin :: "('b, 'c) NetlistConeWireIterable \<Rightarrow> ('b, 'c) NetlistConeWireIter" where
  "wire_begin r = NetlistConeWireIter_at (wire_net r) (wire_sig r)"

definition wire_end :: "('b::zero, 'c) NetlistConeWireIterable \<Rightarrow> ('b, 'c) NetlistConeWireIter" where
  "wire_end r = NetlistConeWireIter_sentinel (wire_net r)"

section \<open>The driving-cell cone iterator\<close>

record ('b, 'c) NetlistConeCellIter =
  cell_net :: "('b, 'c) Netlist"
  sig_iter :: "('b, 'c) NetlistConeWireIter"

definition NetlistConeCellIter_sentinel :: "('b::zero, 'c) Netlist \<Rightarrow> ('b, 'c) NetlistConeCellIter" where
  "NetlistConeCellIter_sentinel n = \<lparr>cell_net = n, sig_iter = NetlistConeWireIter_sentinel n\<rparr>"

definition has_driver_cell :: "('b, 'c) NetlistConeCellIter \<Rightarrow> 'b \<Rightarrow> bool" where
  "has_driver_cell ci s = (dict_count (sigbit_driver_map (cell_net ci)) s \<noteq> 0)"

definition cell_deref :: "('b, 'c) NetlistConeCellIter \<Rightarrow> fault + 'c" where
  "cell_deref ci = dict_at (sigbit_driver_map (cell_net ci)) (wire_deref (sig_iter ci))"

definition cell_neq :: "('b, 'c) NetlistConeCellIter \<Rightarrow> ('b, 'c) NetlistConeCellIter \<Rightarrow> bool" where
  "cell_neq a b = wire_neq (sig_iter a) (sig_iter b)"

definition cell_eq :: "('b, 'c) NetlistConeCellIter \<Rightarrow> ('b, 'c) NetlistConeCellIter \<Rightarrow> bool" where
  "cell_eq a b = wire_eq (sig_iter a) (sig_iter b)"

text \<open>\<^verbatim>\<open>operator++\<close> of the cell iterator: the \<^verbatim>\<open>while (true)\<close> loop.\<close>

function cell_incr :: "('b, 'c) NetlistConeCellIter \<Rightarrow> fault + ('b, 'c) NetlistConeCellIter" where
  "cell_incr ci =
     (case wire_incr (sig_iter ci) of
        Inl e \<Rightarrow> Inl e
      | Inr w \<Rightarrow>
          if sentinel w then Inr (ci\<lparr>sig_iter := w\<rparr>)
          else if has_driver_cell (ci\<lparr>sig_iter := w\<rparr>) (wire_deref w) then
            (case dict_at (sigbit_driver_map (cell_net ci)) (wire_deref w) of
               Inl e \<Rightarrow> Inl e
             | Inr cell \<Rightarrow>
                 if cell \<notin> cells_visited w then Inr (ci\<lparr>sig_iter := w\<rparr>)
                 else cell_incr (ci\<lparr>sig_iter := w\<rparr>))
          else cell_incr (ci\<lparr>sig_iter := w\<rparr>))"
  by pat_completeness auto

text \<open>\<^verbatim>\<open>NetlistConeCellIter(net, sig)\<close>.\<close>

definition NetlistConeCellIter_at ::
  "('b, 'c) Netlist \<Rightarrow> 'b \<Rightarrow> fault + ('b, 'c) NetlistConeCellIter" where
  "NetlistConeCellIter_at n s =
     (let ci = \<lparr>cell_net = n, sig_iter = NetlistConeWireIter_at n s\<rparr> in
      if \<not> sentinel (sig_iter ci) \<and> \<not> has_driver_cell ci (wire_deref (sig_iter ci))
      then cell_incr ci else Inr ci)"

function cell_drain ::
  "('b::zero, 'c) NetlistConeCellIter \<Rightarrow> 'c list \<times> (fault + ('b, 'c) NetlistConeCellIter)" where
  "cell_drain ci =
     (if cell_neq ci (NetlistConeCellIter_sentinel (cell_net ci)) then
        (case cell_deref ci of
           Inl e \<Rightarrow> ([], Inl e)
         | Inr c \<Rightarrow>
             (case cell_incr ci of
                Inl e \<Rightarrow> ([c], Inl e)
              | Inr ci' \<Rightarrow> (c # fst (cell_drain ci'), snd (cell_drain ci'))))
      else ([], Inr ci))"
  by pat_completeness auto

record ('b, 'c) NetlistConeCellIterable =
  cells_net :: "('b, 'c) Netlist"
  cells_sig :: 'b

definition cell_begin :: "('b, 'c) NetlistConeCellIterable \<Rightarrow> fault + ('b, 'c) NetlistConeCellIter" where
  "cell_begin r = NetlistConeCellIter_at (cells_net r) (cells_sig r)"

definition cell_end :: "('b::zero, 'c) NetlistConeCellIterable \<Rightarrow> ('b, 'c) NetlistConeCellIter" where
  "cell_end r = NetlistConeCellIter_sentinel (cells_net r)"

section \<open>The entry points\<close>

definition cone :: "('b, 'c) Netlist \<Rightarrow> 'b \<Rightarrow> ('b, 'c) NetlistConeWireIterable" where
  "cone n s = \<lparr>wire_net = n, wire_sig = sigmap n s\<rparr>"

definition cell_cone :: "('b, 'c) Netlist \<Rightarrow> 'b \<Rightarrow> ('b, 'c) NetlistConeCellIterable" where
  "cell_cone n s = \<lparr>cells_net = n, cells_sig = sigmap n s\<rparr>"

text \<open>The sequences a caller reads from the two iterables.\<close>

definition wire_seq ::
  "('b::zero, 'c) NetlistConeWireIterable \<Rightarrow> 'b list \<times> (fault + ('b, 'c) NetlistConeWireIter)" where
  "wire_seq r = wire_drain (wire_begin r)"

definition cell_seq ::
  "('b::zero, 'c) NetlistConeCellIterable \<Rightarrow> 'c list \<times> (fault + ('b, 'c) NetlistConeCellIter)" where
  "cell_seq r = (case cell_begin r of Inl e \<Rightarrow> ([], Inl e) | Inr ci \<Rightarrow> cell_drain ci)"

section \<open>Observing a traversal\<close>

text \<open>
  The iterator states on which the body of the loop runs, in order.  The bits that
  \<open>wire_drain\<close> reads are the \<^verbatim>\<open>sig\<close> fields of these states.
\<close>

function wire_trace :: "('b::zero, 'c) NetlistConeWireIter \<Rightarrow> ('b, 'c) NetlistConeWireIter list" where
  "wire_trace it =
     (if wire_neq it (NetlistConeWireIter_sentinel (net it)) then
        it # (case wire_incr it of Inl e \<Rightarrow> [] | Inr it' \<Rightarrow> wire_trace it')
      else [])"
  by pat_completeness auto

text \<open>The cell whose input set the next \<^verbatim>\<open>operator++\<close> pushes: the driver of the current bit,
  when there is one and it is not in \<^verbatim>\<open>cells_visited\<close>.\<close>

definition fresh_driver :: "('b, 'c) NetlistConeWireIter \<Rightarrow> 'c option" where
  "fresh_driver it =
     (case map_of (sigbit_driver_map (net it)) (sig it) of
        None \<Rightarrow> None
      | Some drv \<Rightarrow> if drv \<in> cells_visited it then None else Some drv)"

abbreviation expansions :: "('b::zero, 'c) NetlistConeWireIter \<Rightarrow> 'c list" where
  "expansions it \<equiv> List.map_filter fresh_driver (wire_trace it)"

text \<open>What a traversal does after its current state: the cells it still expands, and how
  it ends.\<close>

definition later_expansions :: "('b::zero, 'c) NetlistConeWireIter \<Rightarrow> 'c list" where
  "later_expansions w = (case wire_incr w of Inl e \<Rightarrow> [] | Inr w1 \<Rightarrow> expansions w1)"

definition later_end ::
  "('b::zero, 'c) NetlistConeWireIter \<Rightarrow> fault + ('b, 'c) NetlistConeWireIter" where
  "later_end w = (case wire_incr w of Inl e \<Rightarrow> Inl e | Inr w1 \<Rightarrow> snd (wire_drain w1))"

section \<open>Fan-in, first occurrences and driven bits\<close>

text \<open>The cells of a list in the order of their first occurrence, leaving out those already
  in \<open>seen\<close>.\<close>

fun first_seen :: "'c set \<Rightarrow> 'c list \<Rightarrow> 'c list" where
  "first_seen seen [] = []"
| "first_seen seen (c # cs) = (if c \<in> seen then first_seen seen cs else c # first_seen (insert c seen) cs)"

text \<open>
  The transitive combinational fan-in of a bit \<open>s\<close> in an index: the driver of \<open>s\<close>, and the
  driver of every input bit of a cell of the fan-in.
\<close>

inductive_set fanin_cells :: "('b, 'c) Netlist \<Rightarrow> 'b \<Rightarrow> 'c set" for n :: "('b, 'c) Netlist" and s :: 'b where
  driver: "map_of (sigbit_driver_map n) s = Some c \<Longrightarrow> c \<in> fanin_cells n s"
| input: "c \<in> fanin_cells n s \<Longrightarrow> map_of (cell_inputs_map n) c = Some ins \<Longrightarrow> i \<in> set ins \<Longrightarrow>
          map_of (sigbit_driver_map n) i = Some c' \<Longrightarrow> c' \<in> fanin_cells n s"

text \<open>A canonical bit that a cell produces on one of its output ports.\<close>

definition drives_bit :: "('t, 'p) CellTypes \<Rightarrow> ('b \<Rightarrow> 'b) \<Rightarrow> ('t, 'p, 'b) Cell \<Rightarrow> 'b \<Rightarrow> bool" where
  "drives_bit ct sm cell sb =
     (\<exists>port \<in> set (connections cell). cell_output ct (cell_type cell) (fst port) \<and> sb \<in> sm ` set (snd port))"

section \<open>Example modules\<close>

definition comb_types :: "(string, string) CellTypes" where
  "comb_types = \<lparr>cell_known = (\<lambda>t. t = ''$and'' \<or> t = ''$not'' \<or> t = ''$anyconst''),
                  cell_output = (\<lambda>t p. p = ''Y'')\<rparr>"

text \<open>Two inverters in a ring: \<open>A\<close> drives \<open>bitX\<close> from \<open>bitY\<close>, \<open>B\<close> drives \<open>bitY\<close> from \<open>bitX\<close>.\<close>

definition loop_module :: "'c \<Rightarrow> 'c \<Rightarrow> 'b \<Rightarrow> 'b \<Rightarrow> ('c, string, string, 'b) Module" where
  "loop_module A B bitX bitY =
     [(A, \<lparr>cell_type = ''$not'', connections = [(''A'', [bitY]), (''Y'', [bitX])]\<rparr>),
      (B, \<lparr>cell_type = ''$not'', connections = [(''A'', [bitX]), (''Y'', [bitY])]\<rparr>)]"

text \<open>\<open>c1 = AND(in0, in1) -> w1\<close> and \<open>c2 = AND(w1, in2) -> out\<close>.\<close>

definition and_module ::
  "'c \<Rightarrow> 'c \<Rightarrow> 'b \<Rightarrow> 'b \<Rightarrow> 'b \<Rightarrow> 'b \<Rightarrow> 'b \<Rightarrow> ('c, string, string, 'b) Module" where
  "and_module c1 c2 in0 in1 in2 w1 out =
     [(c1, \<lparr>cell_type = ''$and'', connections = [(''A'', [in0]), (''B'', [in1]), (''Y'', [w1])]\<rparr>),
      (c2, \<lparr>cell_type = ''$and'', connections = [(''A'', [w1]), (''B'', [in2]), (''Y'', [out])]\<rparr>)]"

text \<open>A single cell with an output port and no input port.\<close>

definition anyconst_module :: "'c \<Rightarrow> 'b \<Rightarrow> ('c, string, string, 'b) Module" where
  "anyconst_module c y = [(c, \<lparr>cell_type = ''$anyconst'', connections = [(''Y'', [y])]\<rparr>)]"

text \<open>Two inverters whose outputs are the same bit \<open>z\<close>.\<close>

definition shared_output_module :: "'c \<Rightarrow> 'c \<Rightarrow> 'b \<Rightarrow> 'b \<Rightarrow> 'b \<Rightarrow> ('c, string, string, 'b) Module" where
  "shared_output_module c1 c2 a b z =
     [(c1, \<lparr>cell_type = ''$not'', connections = [(''A'', [a]), (''Y'', [z])]\<rparr>),
      (c2, \<lparr>cell_type = ''$not'', connections = [(''A'', [b]), (''Y'', [z])]\<rparr>)]"

text \<open>An AND cell fed by a cell without input ports and by an inverter.\<close>

definition anyconst_and_module ::
  "'c \<Rightarrow> 'c \<Rightarrow> 'c \<Rightarrow> 'b \<Rightarrow> 'b \<Rightarrow> 'b \<Rightarrow> 'b \<Rightarrow> ('c, string, string, 'b) Module" where
  "anyconst_and_module c0 c1 c2 in0 w1 w2 out =
     [(c0, \<lparr>cell_type = ''$anyconst'', connections = [(''Y'', [w1])]\<rparr>),
      (c1, \<lparr>cell_type = ''$not'', connections = [(''A'', [in0]), (''Y'', [w2])]\<rparr>),
      (c2, \<lparr>cell_type = ''$and'', connections = [(''A'', [w1]), (''B'', [w2]), (''Y'', [out])]\<rparr>)]"

text \<open>The ring of two cells again, with a second input of \<open>A\<close> driven by a cell without input
  ports.\<close>

definition ring_anyconst_module ::
  "'c \<Rightarrow> 'c \<Rightarrow> 'c \<Rightarrow> 'b \<Rightarrow> 'b \<Rightarrow> 'b \<Rightarrow> ('c, string, string, 'b) Module" where
  "ring_anyconst_module A B c0 bitX bitY w =
     [(A, \<lparr>cell_type = ''$and'', connections = [(''A'', [bitY]), (''B'', [w]), (''Y'', [bitX])]\<rparr>),
      (B, \<lparr>cell_type = ''$not'', connections = [(''A'', [bitX]), (''Y'', [bitY])]\<rparr>),
      (c0, \<lparr>cell_type = ''$anyconst'', connections = [(''Y'', [w])]\<rparr>)]"

section \<open>A measure for the traversals\<close>

text \<open>
  Every cell that may still be expanded weighs one more than the size of its input set, and
  every bit still waiting in a stack frame weighs one.  Expanding a cell trades its weight for
  the bits of its frame, so each \<^verbatim>\<open>operator++\<close> on a live iterator lowers the total.
\<close>

definition cell_weight :: "('b, 'c) Netlist \<Rightarrow> 'c \<Rightarrow> nat" where
  "cell_weight n c = (case map_of (cell_inputs_map n) c of None \<Rightarrow> 1 | Some ins \<Rightarrow> Suc (length ins))"

definition stack_size :: "'b list list \<Rightarrow> nat" where
  "stack_size st = sum_list (map length st)"

definition wire_measure :: "('b, 'c) NetlistConeWireIter \<Rightarrow> nat" where
  "wire_measure it =
     (\<Sum>c \<in> snd ` set (sigbit_driver_map (net it)) - cells_visited it. cell_weight (net it) c)
     + stack_size (dfs_path_stack it) + (if sentinel it then 0 else 1)"

section \<open>Invariants of the depth-first walk\<close>

text \<open>
  A bit is stale when it has no driver or its driver is already in \<^verbatim>\<open>cells_visited\<close>: the
  walk will not descend from it.  A bit is in the cone of \<open>s\<close> when its driver, if any, is in
  the fan-in of \<open>s\<close>.
\<close>

definition stale :: "('b, 'c) NetlistConeWireIter \<Rightarrow> 'b \<Rightarrow> bool" where
  "stale it i = (\<forall>c. map_of (sigbit_driver_map (net it)) i = Some c \<longrightarrow> c \<in> cells_visited it)"

definition in_cone :: "'b \<Rightarrow> ('b, 'c) NetlistConeWireIter \<Rightarrow> 'b \<Rightarrow> bool" where
  "in_cone s it i = (\<forall>c. map_of (sigbit_driver_map (net it)) i = Some c \<longrightarrow> c \<in> fanin_cells (net it) s)"

definition sound_inv :: "'b \<Rightarrow> ('b, 'c) NetlistConeWireIter \<Rightarrow> bool" where
  "sound_inv s it =
     (cells_visited it \<subseteq> fanin_cells (net it) s
      \<and> (\<forall>fr \<in> set (dfs_path_stack it). \<forall>i \<in> set fr. in_cone s it i)
      \<and> in_cone s it (sig it))"

definition pending_inv :: "('b, 'c) NetlistConeWireIter \<Rightarrow> bool" where
  "pending_inv it =
     (\<forall>c \<in> cells_visited it. \<forall>ins i. map_of (cell_inputs_map (net it)) c = Some ins \<longrightarrow> i \<in> set ins \<longrightarrow>
        stale it i \<or> (\<exists>fr \<in> set (dfs_path_stack it). i \<in> set fr))"

definition pop_inv :: "('b, 'c) NetlistConeWireIter \<Rightarrow> bool" where
  "pop_inv it = (pending_inv it \<and> (\<forall>fr \<in> set (dfs_path_stack it). fr \<noteq> [] \<and> stale it (hd fr)))"

definition walk_inv :: "'b \<Rightarrow> ('b, 'c) NetlistConeWireIter \<Rightarrow> bool" where
  "walk_inv s it =
     (pending_inv it
      \<and> (dfs_path_stack it \<noteq> [] \<longrightarrow> hd (dfs_path_stack it) \<noteq> [] \<and> sig it = hd (hd (dfs_path_stack it)))
      \<and> (\<forall>fr \<in> set (tl (dfs_path_stack it)). fr \<noteq> [] \<and> stale it (hd fr))
      \<and> (sentinel it \<longrightarrow> dfs_path_stack it = [])
      \<and> (stale it s \<or> (sig it = s \<and> \<not> sentinel it)))"

section \<open>Termination of the traversals\<close>

declare next_sig_in_dag.simps [simp del]

lemma next_sig_in_dag_facts:
  "next_sig_in_dag it = Inr it' \<Longrightarrow>
     net it' = net it \<and> cells_visited it' = cells_visited it \<and> (sentinel it \<longrightarrow> sentinel it')
     \<and> (dfs_path_stack it = [] \<longrightarrow> sentinel it' \<and> dfs_path_stack it' = [])
     \<and> (dfs_path_stack it \<noteq> [] \<longrightarrow> stack_size (dfs_path_stack it') < stack_size (dfs_path_stack it))"
proof (induction it rule: next_sig_in_dag.induct)
  case (1 it)
  show ?case
  proof (cases "dfs_path_stack it")
    case Nil
    with "1.prems" show ?thesis by (auto simp: next_sig_in_dag.simps[of it])
  next
    case (Cons frame below)
    note st = Cons
    show ?thesis
    proof (cases frame)
      case Nil
      with st "1.prems" show ?thesis by (simp add: next_sig_in_dag.simps[of it])
    next
      case (Cons x rest)
      note fr = Cons
      show ?thesis
      proof (cases rest)
        case Nil
        with st fr "1.prems" have step: "next_sig_in_dag (it\<lparr>dfs_path_stack := below\<rparr>) = Inr it'"
          by (simp add: next_sig_in_dag.simps[of it])
        from "1.IH"[OF st fr Nil step] st fr Nil show ?thesis
          by (cases below) (auto simp: stack_size_def)
      next
        case (Cons y ys)
        with st fr "1.prems" show ?thesis by (auto simp: stack_size_def next_sig_in_dag.simps[of it])
      qed
    qed
  qed
qed

lemma next_sig_in_dag_measure:
  assumes "next_sig_in_dag it = Inr it'" "\<not> sentinel it'  \<or> \<not> sentinel it"
  shows "wire_measure it' < wire_measure it"
  using next_sig_in_dag_facts[OF assms(1)] assms(2)
  by (cases "dfs_path_stack it = []") (auto simp: wire_measure_def stack_size_def)

lemma wire_incr_cases:
  "wire_incr it =
     (case map_of (sigbit_driver_map (net it)) (sig it) of
        None \<Rightarrow> next_sig_in_dag it
      | Some drv \<Rightarrow>
          if drv \<in> cells_visited it then next_sig_in_dag it
          else (case map_of (cell_inputs_map (net it)) drv of
                  None \<Rightarrow> Inl DictOutOfRange
                | Some [] \<Rightarrow> Inl EndIteratorDeref
                | Some (x # xs) \<Rightarrow>
                    Inr (it\<lparr>dfs_path_stack := (x # xs) # dfs_path_stack it,
                            cells_visited := insert drv (cells_visited it), sig := x\<rparr>)))"
  by (simp add: wire_incr_def dict_at_def dict_count_def split: option.split list.split)


lemma wire_incr_step:
  assumes "wire_incr it = Inr it'"
  shows "next_sig_in_dag it = Inr it' \<or>
     (\<exists>drv x ins. map_of (sigbit_driver_map (net it)) (sig it) = Some drv \<and> drv \<notin> cells_visited it \<and>
        map_of (cell_inputs_map (net it)) drv = Some (x # ins) \<and>
        it' = it\<lparr>dfs_path_stack := (x # ins) # dfs_path_stack it,
                  cells_visited := insert drv (cells_visited it), sig := x\<rparr>)"
  using assms by (simp add: wire_incr_cases split: option.splits if_splits list.splits)

lemma wire_incr_net: "wire_incr it = Inr it' \<Longrightarrow> net it' = net it"
  using next_sig_in_dag_facts[of it it'] by (drule_tac wire_incr_step) (elim disjE exE conjE, simp_all)

lemma wire_incr_sentinel: "wire_incr it = Inr it' \<Longrightarrow> sentinel it \<Longrightarrow> sentinel it'"
  using next_sig_in_dag_facts[of it it'] by (drule_tac wire_incr_step) (elim disjE exE conjE, simp_all)

lemma wire_incr_measure:
  assumes "wire_incr it = Inr it'" "\<not> sentinel it' \<or> \<not> sentinel it"
  shows "wire_measure it' < wire_measure it"
proof (cases "\<exists>drv. map_of (sigbit_driver_map (net it)) (sig it) = Some drv \<and> drv \<notin> cells_visited it")
  case False
  with assms(1) have "next_sig_in_dag it = Inr it'"
    by (simp add: wire_incr_cases split: option.splits if_splits)
  then show ?thesis using assms(2) by (rule next_sig_in_dag_measure)
next
  case True
  then obtain drv where drv: "map_of (sigbit_driver_map (net it)) (sig it) = Some drv"
    "drv \<notin> cells_visited it" by blast
  from assms(1) drv have "\<exists>x ins. map_of (cell_inputs_map (net it)) drv = Some (x # ins) \<and>
     it' = it\<lparr>dfs_path_stack := (x # ins) # dfs_path_stack it,
                       cells_visited := insert drv (cells_visited it), sig := x\<rparr>"
    by (simp add: wire_incr_cases split: option.splits list.splits)
  then obtain x ins where ins: "map_of (cell_inputs_map (net it)) drv = Some (x # ins)"
    and it': "it' = it\<lparr>dfs_path_stack := (x # ins) # dfs_path_stack it,
                       cells_visited := insert drv (cells_visited it), sig := x\<rparr>"
    by blast
  let ?D = "snd ` set (sigbit_driver_map (net it))"
  have fin: "finite (?D - cells_visited it)" by simp
  from drv(1) have "(sig it, drv) \<in> set (sigbit_driver_map (net it))" by (rule map_of_SomeD)
  then have "snd (sig it, drv) \<in> ?D" by (rule imageI)
  with drv(2) have mem: "drv \<in> ?D - cells_visited it" by simp
  have eq: "?D - insert drv (cells_visited it) = (?D - cells_visited it) - {drv}" by auto
  have s1: "(\<Sum>c \<in> ?D - cells_visited it. cell_weight (net it) c)
      = cell_weight (net it) drv + (\<Sum>c \<in> ?D - insert drv (cells_visited it). cell_weight (net it) c)"
    unfolding eq using sum.remove[OF fin mem] .
  have s2: "cell_weight (net it) drv = Suc (Suc (length ins))"
    using ins by (simp add: cell_weight_def)
  have m': "wire_measure it' = (\<Sum>c \<in> ?D - insert drv (cells_visited it). cell_weight (net it) c)
     + (Suc (length ins) + stack_size (dfs_path_stack it)) + (if sentinel it then 0 else 1)"
    unfolding it' wire_measure_def stack_size_def by simp
  have m: "wire_measure it = (cell_weight (net it) drv + (\<Sum>c \<in> ?D - insert drv (cells_visited it). cell_weight (net it) c))
     + stack_size (dfs_path_stack it) + (if sentinel it then 0 else 1)"
    unfolding wire_measure_def s1[symmetric] ..
  show ?thesis unfolding m m' s2 by simp
qed


lemma wire_neq_sentinel [simp]: "wire_neq it (NetlistConeWireIter_sentinel n) = (\<not> sentinel it)"
  by (simp add: wire_neq_def NetlistConeWireIter_sentinel_def)

termination wire_drain
  by (relation "measure wire_measure") (auto intro: wire_incr_measure)

declare wire_drain.simps [simp del]

termination cell_incr
  by (relation "measure (\<lambda>ci. wire_measure (sig_iter ci))") (auto intro: wire_incr_measure)

declare cell_incr.simps [simp del]

lemma cell_incr_facts:
  "cell_incr ci = Inr ci' \<Longrightarrow>
     cell_net ci' = cell_net ci \<and> net (sig_iter ci') = net (sig_iter ci)
     \<and> (sentinel (sig_iter ci) \<longrightarrow> sentinel (sig_iter ci'))
     \<and> (\<not> sentinel (sig_iter ci) \<longrightarrow> wire_measure (sig_iter ci') < wire_measure (sig_iter ci))"
proof (induction ci rule: cell_incr.induct)
  case (1 ci)
  from "1.prems" obtain w where w: "wire_incr (sig_iter ci) = Inr w"
    by (auto simp: cell_incr.simps[of ci] split: sum.splits)
  note wn = wire_incr_net[OF w] and ws = wire_incr_sentinel[OF w]
  show ?case
  proof (cases "cell_incr ci = Inr (ci\<lparr>sig_iter := w\<rparr>)")
    case True
    with "1.prems" have ci': "ci' = ci\<lparr>sig_iter := w\<rparr>" by simp
    show ?thesis using wn ws wire_incr_measure[OF w] unfolding ci' by auto
  next
    case False
    with w have ns: "\<not> sentinel w" by (auto simp: cell_incr.simps[of ci] split: if_splits)
    have m: "wire_measure w < wire_measure (sig_iter ci)" using wire_incr_measure[OF w] ns by simp
    show ?thesis
    proof (cases "has_driver_cell (ci\<lparr>sig_iter := w\<rparr>) (wire_deref w)")
      case hd: True
      with False w ns "1.prems" obtain cell where
        c: "dict_at (sigbit_driver_map (cell_net ci)) (wire_deref w) = Inr cell"
        and cv: "\<not> cell \<notin> cells_visited w"
        and rec: "cell_incr (ci\<lparr>sig_iter := w\<rparr>) = Inr ci'"
        by (auto simp: cell_incr.simps[of ci] split: sum.splits if_splits)
      from "1.IH"(1)[OF w ns hd c cv rec] ns m wn ws show ?thesis by auto
    next
      case nhd: False
      with False w ns "1.prems" have rec: "cell_incr (ci\<lparr>sig_iter := w\<rparr>) = Inr ci'"
        by (auto simp: cell_incr.simps[of ci] split: sum.splits if_splits)
      from "1.IH"(2)[OF w ns nhd rec] ns m wn ws show ?thesis by auto
    qed
  qed
qed

lemma wire_end_sentinel: "wire_end r = NetlistConeWireIter_sentinel (net (wire_begin r))"
  by (simp add: wire_end_def wire_begin_def NetlistConeWireIter_at_def)

lemma cell_neq_sentinel [simp]:
  "cell_neq ci (NetlistConeCellIter_sentinel n) = (\<not> sentinel (sig_iter ci))"
  by (simp add: cell_neq_def NetlistConeCellIter_sentinel_def)

termination cell_drain
  by (relation "measure (\<lambda>ci. wire_measure (sig_iter ci))") (auto dest: cell_incr_facts)

declare cell_drain.simps [simp del]


termination wire_trace
  by (relation "measure wire_measure") (auto intro: wire_incr_measure)

declare wire_trace.simps [simp del]

section \<open>Unfolding the loops\<close>

lemma wire_drain_sentinel: "sentinel it \<Longrightarrow> wire_drain it = ([], Inr it)"
  by (simp add: wire_drain.simps[of it])

lemma wire_drain_live:
  "\<not> sentinel it \<Longrightarrow> wire_drain it =
     (case wire_incr it of
        Inl e \<Rightarrow> ([wire_deref it], Inl e)
      | Inr it' \<Rightarrow> (wire_deref it # fst (wire_drain it'), snd (wire_drain it')))"
  by (simp add: wire_drain.simps[of it])

lemma cell_drain_sentinel: "sentinel (sig_iter ci) \<Longrightarrow> cell_drain ci = ([], Inr ci)"
  by (simp add: cell_drain.simps[of ci])

lemma cell_drain_live:
  "\<not> sentinel (sig_iter ci) \<Longrightarrow> cell_drain ci =
     (case cell_deref ci of
           Inl e \<Rightarrow> ([], Inl e)
         | Inr c \<Rightarrow>
             (case cell_incr ci of
                Inl e \<Rightarrow> ([c], Inl e)
              | Inr ci' \<Rightarrow> (c # fst (cell_drain ci'), snd (cell_drain ci'))))"
  by (simp add: cell_drain.simps[of ci])

lemma wire_incr_undriven:
  "map_of (sigbit_driver_map (net it)) (sig it) = None \<Longrightarrow> dfs_path_stack it = [] \<Longrightarrow>
   wire_incr it = Inr (it\<lparr>sentinel := True\<rparr>)"
  by (simp add: wire_incr_cases next_sig_in_dag.simps[of it])

lemma wire_drain_net: "snd (wire_drain it) = Inr f \<Longrightarrow> net f = net it"
proof (induction it rule: wire_drain.induct)
  case (1 it)
  show ?case
  proof (cases "sentinel it")
    case True
    with "1.prems" show ?thesis by (simp add: wire_drain_sentinel)
  next
    case False
    with "1.prems" obtain it' where step: "wire_incr it = Inr it'" and rest: "snd (wire_drain it') = Inr f"
      by (auto simp: wire_drain_live split: sum.splits)
    from False have "wire_neq it (NetlistConeWireIter_sentinel (net it))" by simp
    from "1.IH"[OF this step rest] wire_incr_net[OF step] show ?thesis by simp
  qed
qed

lemma cell_drain_net:
  "snd (cell_drain ci) = Inr f \<Longrightarrow> cell_net f = cell_net ci \<and> net (sig_iter f) = net (sig_iter ci)"
proof (induction ci rule: cell_drain.induct)
  case (1 ci)
  show ?case
  proof (cases "sentinel (sig_iter ci)")
    case True
    with "1.prems" show ?thesis by (simp add: cell_drain_sentinel)
  next
    case False
    with "1.prems" obtain c ci' where c: "cell_deref ci = Inr c" and step: "cell_incr ci = Inr ci'"
      and rest: "snd (cell_drain ci') = Inr f"
      by (auto simp: cell_drain_live split: sum.splits)
    from False have "cell_neq ci (NetlistConeCellIter_sentinel (cell_net ci))" by simp
    from "1.IH"[OF this c step rest] cell_incr_facts[OF step] show ?thesis by simp
  qed
qed

lemma cell_begin_net:
  assumes "cell_begin (cell_cone n b) = Inr ci"
  shows "cell_net ci = n \<and> net (sig_iter ci) = n"
proof (cases "map_of (sigbit_driver_map n) (sigmap n b)")
  case None
  with assms have "cell_incr \<lparr>cell_net = n, sig_iter = NetlistConeWireIter_at n (sigmap n b)\<rparr> = Inr ci"
    by (simp add: cell_begin_def cell_cone_def NetlistConeCellIter_at_def has_driver_cell_def
        dict_count_def wire_deref_def NetlistConeWireIter_at_def)
  from cell_incr_facts[OF this] show ?thesis by (simp add: NetlistConeWireIter_at_def)
next
  case (Some c)
  with assms have "ci = \<lparr>cell_net = n, sig_iter = NetlistConeWireIter_at n (sigmap n b)\<rparr>"
    by (simp add: cell_begin_def cell_cone_def NetlistConeCellIter_at_def has_driver_cell_def
        dict_count_def wire_deref_def NetlistConeWireIter_at_def)
  then show ?thesis by (simp add: NetlistConeWireIter_at_def)
qed


section \<open>The trace of a traversal\<close>

lemma wire_trace_sentinel: "sentinel it \<Longrightarrow> wire_trace it = []"
  by (simp add: wire_trace.simps[of it])

lemma wire_trace_live:
  "\<not> sentinel it \<Longrightarrow>
   wire_trace it = it # (case wire_incr it of Inl e \<Rightarrow> [] | Inr it' \<Rightarrow> wire_trace it')"
  by (simp add: wire_trace.simps[of it])

lemma wire_drain_trace: "fst (wire_drain it) = map sig (wire_trace it)"
proof (induction it rule: wire_drain.induct)
  case (1 it)
  show ?case
  proof (cases "sentinel it")
    case True
    then show ?thesis by (simp add: wire_drain_sentinel wire_trace_sentinel)
  next
    case False
    then have live: "wire_neq it (NetlistConeWireIter_sentinel (net it))" by simp
    show ?thesis
    proof (cases "wire_incr it")
      case (Inl e)
      with False show ?thesis by (simp add: wire_drain_live wire_trace_live wire_deref_def)
    next
      case (Inr it')
      with False "1.IH"[OF live Inr] show ?thesis
        by (simp add: wire_drain_live wire_trace_live wire_deref_def)
    qed
  qed
qed

lemma wire_trace_net: "it' \<in> set (wire_trace it) \<Longrightarrow> net it' = net it"
proof (induction it rule: wire_trace.induct)
  case (1 it)
  show ?case
  proof (cases "sentinel it")
    case True
    with "1.prems" show ?thesis by (simp add: wire_trace_sentinel)
  next
    case False
    then have live: "wire_neq it (NetlistConeWireIter_sentinel (net it))" by simp
    show ?thesis
    proof (cases "wire_incr it")
      case (Inl e)
      with False "1.prems" show ?thesis by (simp add: wire_trace_live)
    next
      case (Inr it1)
      with False "1.prems" have "it' = it \<or> it' \<in> set (wire_trace it1)" by (simp add: wire_trace_live)
      with "1.IH"[OF live Inr] wire_incr_net[OF Inr] show ?thesis by auto
    qed
  qed
qed

lemma wire_drain_length: "length (fst (wire_drain it)) \<le> wire_measure it"
proof (induction it rule: wire_drain.induct)
  case (1 it)
  show ?case
  proof (cases "sentinel it")
    case True
    then show ?thesis by (simp add: wire_drain_sentinel)
  next
    case False
    then have live: "wire_neq it (NetlistConeWireIter_sentinel (net it))" by simp
    show ?thesis
    proof (cases "wire_incr it")
      case (Inl e)
      with False show ?thesis by (simp add: wire_drain_live wire_measure_def)
    next
      case (Inr it')
      from wire_incr_measure[OF Inr] False have "wire_measure it' < wire_measure it" by simp
      with False Inr "1.IH"[OF live Inr] show ?thesis
        by (simp add: wire_drain_live)
    qed
  qed
qed

lemma wire_incr_fresh:
  assumes "wire_incr it = Inr it'" "fresh_driver it = Some c"
  shows "\<exists>x xs. map_of (cell_inputs_map (net it)) c = Some (x # xs) \<and>
           it' = it\<lparr>dfs_path_stack := (x # xs) # dfs_path_stack it,
                     cells_visited := insert c (cells_visited it), sig := x\<rparr>"
  using assms
  by (simp add: wire_incr_cases fresh_driver_def split: option.splits if_splits list.splits)

lemma wire_incr_stale:
  assumes "fresh_driver it = None"
  shows "wire_incr it = next_sig_in_dag it"
  using assms
  by (auto simp add: wire_incr_cases fresh_driver_def split: option.splits if_splits)

lemma wire_incr_visited:
  assumes "wire_incr it = Inr it'"
  shows "cells_visited it' = cells_visited it \<union> set_option (fresh_driver it)"
proof (cases "fresh_driver it")
  case None
  with assms have "next_sig_in_dag it = Inr it'" by (simp add: wire_incr_stale)
  from next_sig_in_dag_facts[OF this] None show ?thesis by simp
next
  case (Some c)
  from wire_incr_fresh[OF assms Some] Some show ?thesis by auto
qed

lemma fresh_driver_not_visited: "fresh_driver it = Some c \<Longrightarrow> c \<notin> cells_visited it"
  by (simp add: fresh_driver_def split: option.splits if_splits)

lemma expansions_fresh:
  "distinct (expansions it) \<and> set (expansions it) \<inter> cells_visited it = {}"
proof (induction it rule: wire_trace.induct)
  case (1 it)
  show ?case
  proof (cases "sentinel it")
    case True
    then show ?thesis by (simp add: wire_trace_sentinel)
  next
    case False
    then have live: "wire_neq it (NetlistConeWireIter_sentinel (net it))" by simp
    show ?thesis
    proof (cases "wire_incr it")
      case (Inl e)
      with False show ?thesis
        by (auto simp: wire_trace_live fresh_driver_not_visited split: option.splits)
    next
      case (Inr it')
      note IH = "1.IH"[OF live Inr]
      from wire_incr_visited[OF Inr] have v: "cells_visited it' = cells_visited it \<union> set_option (fresh_driver it)" .
      have tr: "wire_trace it = it # wire_trace it'" using False Inr by (simp add: wire_trace_live)
      show ?thesis
      proof (cases "fresh_driver it")
        case None
        with IH v tr show ?thesis by simp
      next
        case (Some c)
        with IH v tr fresh_driver_not_visited[OF Some] show ?thesis
          by auto
      qed
    qed
  qed
qed

lemma wire_drain_visited:
  "snd (wire_drain it) = Inr f \<Longrightarrow> cells_visited f = cells_visited it \<union> set (expansions it)"
proof (induction it rule: wire_drain.induct)
  case (1 it)
  show ?case
  proof (cases "sentinel it")
    case True
    with "1.prems" show ?thesis by (simp add: wire_drain_sentinel wire_trace_sentinel)
  next
    case False
    then have live: "wire_neq it (NetlistConeWireIter_sentinel (net it))" by simp
    from False "1.prems" obtain it' where step: "wire_incr it = Inr it'"
      and rest: "snd (wire_drain it') = Inr f"
      by (auto simp: wire_drain_live split: sum.splits)
    have tr: "wire_trace it = it # wire_trace it'" using False step by (simp add: wire_trace_live)
    from "1.IH"[OF live step rest] wire_incr_visited[OF step] tr show ?thesis
      by (cases "fresh_driver it") auto
  qed
qed

lemma expansions_first_seen:
  "expansions it =
     first_seen (cells_visited it)
       (List.map_filter (map_of (sigbit_driver_map (net it))) (map sig (wire_trace it)))"
proof (induction it rule: wire_trace.induct)
  case (1 it)
  show ?case
  proof (cases "sentinel it")
    case True
    then show ?thesis by (simp add: wire_trace_sentinel)
  next
    case False
    then have live: "wire_neq it (NetlistConeWireIter_sentinel (net it))" by simp
    show ?thesis
    proof (cases "wire_incr it")
      case (Inl e)
      with False show ?thesis
        by (auto simp: wire_trace_live fresh_driver_def split: option.splits)
    next
      case (Inr it')
      note IH = "1.IH"[OF live Inr]
      have tr: "wire_trace it = it # wire_trace it'" using False Inr by (simp add: wire_trace_live)
      from wire_incr_visited[OF Inr] wire_incr_net[OF Inr] IH tr show ?thesis
        by (auto simp: fresh_driver_def split: option.splits)
    qed
  qed
qed

section \<open>The walk visits exactly the fan-in\<close>

lemma stale_update [simp]:
  "stale (it\<lparr>dfs_path_stack := st\<rparr>) i = stale it i"
  "stale (it\<lparr>sentinel := b\<rparr>) i = stale it i"
  "stale (it\<lparr>sig := x\<rparr>) i = stale it i"
  by (simp_all add: stale_def)

lemma in_cone_update [simp]:
  "in_cone s (it\<lparr>dfs_path_stack := st\<rparr>) i = in_cone s it i"
  "in_cone s (it\<lparr>sentinel := b\<rparr>) i = in_cone s it i"
  "in_cone s (it\<lparr>sig := x\<rparr>) i = in_cone s it i"
  "in_cone s (it\<lparr>cells_visited := v\<rparr>) i = in_cone s it i"
  by (simp_all add: in_cone_def)

lemma next_sig_in_dag_walk:
  "pop_inv it \<Longrightarrow> \<not> sentinel it \<Longrightarrow> stale it s \<Longrightarrow> next_sig_in_dag it = Inr it' \<Longrightarrow> walk_inv s it'"
proof (induction it rule: next_sig_in_dag.induct)
  case (1 it)
  note pend = "1.prems"(1)[unfolded pop_inv_def, THEN conjunct1]
  note frames = "1.prems"(1)[unfolded pop_inv_def, THEN conjunct2]
  show ?case
  proof (cases "dfs_path_stack it")
    case Nil
    with "1.prems"(4) have it': "it' = it\<lparr>sentinel := True\<rparr>"
      by (simp add: next_sig_in_dag.simps[of it])
    from pend Nil "1.prems"(3) show ?thesis
      unfolding it' walk_inv_def pending_inv_def by simp
  next
    case (Cons frame below)
    note st = Cons
    with frames obtain x rest where fr: "frame = x # rest" and sx: "stale it x"
      by (cases frame) auto
    show ?thesis
    proof (cases rest)
      case Nil
      let ?it1 = "it\<lparr>dfs_path_stack := below\<rparr>"
      from st fr Nil "1.prems"(4) have step: "next_sig_in_dag ?it1 = Inr it'"
        by (simp add: next_sig_in_dag.simps[of it])
      have p1: "pending_inv ?it1"
        unfolding pending_inv_def
      proof (intro ballI allI impI)
        fix c ins i
        assume c: "c \<in> cells_visited ?it1" and ins: "map_of (cell_inputs_map (net ?it1)) c = Some ins"
          and i: "i \<in> set ins"
        from pend[unfolded pending_inv_def] c ins i
        have "stale it i \<or> (\<exists>fr \<in> set (dfs_path_stack it). i \<in> set fr)" by simp
        with st fr Nil sx show "stale ?it1 i \<or> (\<exists>fr \<in> set (dfs_path_stack ?it1). i \<in> set fr)"
          by auto
      qed
      have "pop_inv ?it1" unfolding pop_inv_def using p1 frames st by simp
      moreover have "\<not> sentinel ?it1" "stale ?it1 s" using "1.prems"(2,3) by simp_all
      ultimately show ?thesis using "1.IH"[OF st fr Nil] step by blast
    next
      case (Cons y ys)
      with st fr "1.prems"(4) have it': "it' = it\<lparr>dfs_path_stack := rest # below, sig := y\<rparr>"
        by (simp add: next_sig_in_dag.simps[of it])
      have p1: "pending_inv it'"
        unfolding pending_inv_def
      proof (intro ballI allI impI)
        fix c ins i
        assume c: "c \<in> cells_visited it'" and ins: "map_of (cell_inputs_map (net it')) c = Some ins"
          and i: "i \<in> set ins"
        from pend[unfolded pending_inv_def] c ins i
        have "stale it i \<or> (\<exists>fr \<in> set (dfs_path_stack it). i \<in> set fr)" by (simp add: it')
        with st fr sx show "stale it' i \<or> (\<exists>fr \<in> set (dfs_path_stack it'). i \<in> set fr)"
          unfolding it' by auto
      qed
      from frames st have "\<forall>fr \<in> set below. fr \<noteq> [] \<and> stale it (hd fr)" by simp
      with p1 Cons "1.prems"(2,3) show ?thesis
        unfolding walk_inv_def by (simp add: it')
    qed
  qed
qed

lemma next_sig_in_dag_sound:
  "sound_inv s it \<Longrightarrow> next_sig_in_dag it = Inr it' \<Longrightarrow> sound_inv s it'"
proof (induction it rule: next_sig_in_dag.induct)
  case (1 it)
  show ?case
  proof (cases "dfs_path_stack it")
    case Nil
    with "1.prems"(2) have it': "it' = it\<lparr>sentinel := True\<rparr>"
      by (simp add: next_sig_in_dag.simps[of it])
    from "1.prems"(1) show ?thesis unfolding it' sound_inv_def by simp
  next
    case (Cons frame below)
    note st = Cons
    show ?thesis
    proof (cases frame)
      case Nil
      with st "1.prems"(2) show ?thesis by (simp add: next_sig_in_dag.simps[of it])
    next
      case (Cons x rest)
      note fr = Cons
      show ?thesis
      proof (cases rest)
        case Nil
        let ?it1 = "it\<lparr>dfs_path_stack := below\<rparr>"
        from st fr Nil "1.prems"(2) have step: "next_sig_in_dag ?it1 = Inr it'"
          by (simp add: next_sig_in_dag.simps[of it])
        from "1.prems"(1) st have "sound_inv s ?it1" unfolding sound_inv_def by simp
        from "1.IH"[OF st fr Nil this step] show ?thesis .
      next
        case (Cons y ys)
        with st fr "1.prems"(2) have it': "it' = it\<lparr>dfs_path_stack := rest # below, sig := y\<rparr>"
          by (simp add: next_sig_in_dag.simps[of it])
        from "1.prems"(1) st fr Cons show ?thesis unfolding it' sound_inv_def by simp
      qed
    qed
  qed
qed

lemma fresh_driver_None_stale: "fresh_driver it = None \<Longrightarrow> stale it (sig it)"
  by (auto simp: fresh_driver_def stale_def split: option.splits if_splits)

lemma fresh_driver_Some:
  "fresh_driver it = Some c \<Longrightarrow> map_of (sigbit_driver_map (net it)) (sig it) = Some c \<and> c \<notin> cells_visited it"
  by (auto simp: fresh_driver_def split: option.splits if_splits)

lemma wire_incr_walk:
  assumes inv: "walk_inv s it" and live: "\<not> sentinel it" and step: "wire_incr it = Inr it'"
  shows "walk_inv s it'"
proof (cases "fresh_driver it")
  case None
  with step have ns: "next_sig_in_dag it = Inr it'" by (simp add: wire_incr_stale)
  have ss: "stale it (sig it)" using None by (rule fresh_driver_None_stale)
  from inv have pend: "pending_inv it" by (simp add: walk_inv_def)
  have frames: "\<forall>fr \<in> set (dfs_path_stack it). fr \<noteq> [] \<and> stale it (hd fr)"
  proof (cases "dfs_path_stack it")
    case Nil
    then show ?thesis by simp
  next
    case (Cons top below)
    with inv ss show ?thesis by (auto simp: walk_inv_def)
  qed
  have "stale it s" using inv ss live by (auto simp: walk_inv_def)
  with pend frames live ns show ?thesis
    by (intro next_sig_in_dag_walk[of it s it']) (simp_all add: pop_inv_def)
next
  case (Some c)
  from wire_incr_fresh[OF step Some] obtain x xs where
    ins: "map_of (cell_inputs_map (net it)) c = Some (x # xs)"
    and it': "it' = it\<lparr>dfs_path_stack := (x # xs) # dfs_path_stack it,
                     cells_visited := insert c (cells_visited it), sig := x\<rparr>"
    by blast
  from fresh_driver_Some[OF Some] have drv: "map_of (sigbit_driver_map (net it)) (sig it) = Some c" by simp
  have ss: "stale it' (sig it)" using drv unfolding it' stale_def by simp
  have mono: "stale it i \<Longrightarrow> stale it' i" for i unfolding it' stale_def by simp
  have p1: "pending_inv it'"
    unfolding pending_inv_def
  proof (intro ballI allI impI)
    fix c0 ins0 i
    assume c0: "c0 \<in> cells_visited it'" and ins0: "map_of (cell_inputs_map (net it')) c0 = Some ins0"
      and i: "i \<in> set ins0"
    show "stale it' i \<or> (\<exists>fr \<in> set (dfs_path_stack it'). i \<in> set fr)"
    proof (cases "c0 = c")
      case True
      with ins ins0 i show ?thesis unfolding it' by simp
    next
      case False
      with c0 have "c0 \<in> cells_visited it" unfolding it' by simp
      with inv ins0 i have "stale it i \<or> (\<exists>fr \<in> set (dfs_path_stack it). i \<in> set fr)"
        unfolding walk_inv_def pending_inv_def it' by simp
      with mono show ?thesis unfolding it' by auto
    qed
  qed
  have below: "\<forall>fr \<in> set (dfs_path_stack it). fr \<noteq> [] \<and> stale it' (hd fr)"
  proof (cases "dfs_path_stack it")
    case Nil
    then show ?thesis by simp
  next
    case (Cons top rest)
    with inv ss mono show ?thesis by (auto simp: walk_inv_def)
  qed
  have c5: "stale it' s \<or> (sig it' = s \<and> \<not> sentinel it')"
    using inv ss mono by (auto simp: walk_inv_def)
  from p1 below c5 live show ?thesis
    unfolding walk_inv_def by (simp add: it')
qed

lemma wire_incr_sound:
  assumes inv: "sound_inv s it" and step: "wire_incr it = Inr it'"
  shows "sound_inv s it'"
proof (cases "fresh_driver it")
  case None
  with step have "next_sig_in_dag it = Inr it'" by (simp add: wire_incr_stale)
  with inv show ?thesis by (rule next_sig_in_dag_sound)
next
  case (Some c)
  from wire_incr_fresh[OF step Some] obtain x xs where
    ins: "map_of (cell_inputs_map (net it)) c = Some (x # xs)"
    and it': "it' = it\<lparr>dfs_path_stack := (x # xs) # dfs_path_stack it,
                     cells_visited := insert c (cells_visited it), sig := x\<rparr>"
    by blast
  from fresh_driver_Some[OF Some] have drv: "map_of (sigbit_driver_map (net it)) (sig it) = Some c" by simp
  with inv have c: "c \<in> fanin_cells (net it) s" by (simp add: sound_inv_def in_cone_def)
  have new: "in_cone s it i" if "i \<in> set (x # xs)" for i
    unfolding in_cone_def using fanin_cells.input[OF c ins that] by blast
  from inv c new show ?thesis unfolding it' sound_inv_def by auto
qed

lemma wire_drain_inv:
  "walk_inv s it \<Longrightarrow> sound_inv s it \<Longrightarrow> snd (wire_drain it) = Inr f \<Longrightarrow>
   walk_inv s f \<and> sound_inv s f \<and> (\<not> sentinel it \<longrightarrow> sentinel f)"
proof (induction it rule: wire_drain.induct)
  case (1 it)
  show ?case
  proof (cases "sentinel it")
    case True
    with "1.prems" show ?thesis by (simp add: wire_drain_sentinel)
  next
    case False
    then have live: "wire_neq it (NetlistConeWireIter_sentinel (net it))" by simp
    from False "1.prems"(3) obtain it' where step: "wire_incr it = Inr it'"
      and rest: "snd (wire_drain it') = Inr f"
      by (auto simp: wire_drain_live split: sum.splits)
    note w = wire_incr_walk[OF "1.prems"(1) False step] and s = wire_incr_sound[OF "1.prems"(2) step]
    from "1.IH"[OF live step w s rest] have f: "walk_inv s f" "sound_inv s f" "\<not> sentinel it' \<longrightarrow> sentinel f"
      by simp_all
    have "sentinel f"
    proof (cases "sentinel it'")
      case True
      with rest show ?thesis by (simp add: wire_drain_sentinel)
    next
      case False
      with f show ?thesis by simp
    qed
    with f show ?thesis by simp
  qed
qed

lemma walk_inv_begin: "walk_inv s (NetlistConeWireIter_at n s)"
  by (simp add: walk_inv_def pending_inv_def NetlistConeWireIter_at_def)

lemma sound_inv_begin: "sound_inv s (NetlistConeWireIter_at n s)"
  by (auto simp: sound_inv_def in_cone_def NetlistConeWireIter_at_def intro: fanin_cells.driver)

lemma wire_drain_visits_fanin:
  assumes "snd (wire_drain (NetlistConeWireIter_at n s)) = Inr f"
  shows "cells_visited f = fanin_cells n s"
proof -
  let ?it = "NetlistConeWireIter_at n s"
  from wire_drain_inv[OF walk_inv_begin sound_inv_begin assms]
  have w: "walk_inv s f" and so: "sound_inv s f" and se: "sentinel f"
    by (simp_all add: NetlistConeWireIter_at_def)
  have nf: "net f = n" using wire_drain_net[OF assms] by (simp add: NetlistConeWireIter_at_def)
  from w se have empty: "dfs_path_stack f = []" and start: "stale f s" and pend: "pending_inv f"
    by (auto simp: walk_inv_def)
  have "c \<in> cells_visited f" if "c \<in> fanin_cells n s" for c
    using that
  proof (induction rule: fanin_cells.induct)
    case (driver c)
    with start nf show ?case by (simp add: stale_def)
  next
    case (input c ins i c')
    from pend input.IH input.hyps(2,3) empty nf have "stale f i"
      unfolding pending_inv_def by auto
    with input.hyps(4) nf show ?case by (simp add: stale_def)
  qed
  moreover from so nf have "cells_visited f \<subseteq> fanin_cells n s" by (simp add: sound_inv_def)
  ultimately show ?thesis by blast
qed

lemma expansions_are_fanin:
  assumes "snd (wire_drain (NetlistConeWireIter_at n s)) = Inr f"
  shows "set (expansions (NetlistConeWireIter_at n s)) = fanin_cells n s"
  using wire_drain_visits_fanin[OF assms] wire_drain_visited[OF assms]
  by (simp add: NetlistConeWireIter_at_def)

lemma expansions_sound:
  "sound_inv s it \<Longrightarrow> set (expansions it) \<subseteq> fanin_cells (net it) s"
proof (induction it rule: wire_trace.induct)
  case (1 it)
  show ?case
  proof (cases "sentinel it")
    case True
    then show ?thesis by (simp add: wire_trace_sentinel)
  next
    case False
    then have live: "wire_neq it (NetlistConeWireIter_sentinel (net it))" by simp
    have here: "c \<in> fanin_cells (net it) s" if "fresh_driver it = Some c" for c
      using fresh_driver_Some[OF that] "1.prems" by (simp add: sound_inv_def in_cone_def)
    show ?thesis
    proof (cases "wire_incr it")
      case (Inl e)
      with False here show ?thesis
        by (auto simp: wire_trace_live split: option.splits)
    next
      case (Inr it')
      from "1.IH"[OF live Inr wire_incr_sound[OF "1.prems" Inr]] wire_incr_net[OF Inr]
      have "set (expansions it') \<subseteq> fanin_cells (net it) s" by simp
      with False Inr here show ?thesis
        by (auto simp: wire_trace_live split: option.splits)
    qed
  qed
qed

lemma fanin_cells_drive: "c \<in> fanin_cells n s \<Longrightarrow> c \<in> snd ` set (sigbit_driver_map n)"
proof (induction rule: fanin_cells.induct)
  case (driver c)
  then have "(s, c) \<in> set (sigbit_driver_map n)" by (rule map_of_SomeD)
  then have "snd (s, c) \<in> snd ` set (sigbit_driver_map n)" by (rule imageI)
  then show ?case by simp
next
  case (input c ins i c')
  from input.hyps(4) have "(i, c') \<in> set (sigbit_driver_map n)" by (rule map_of_SomeD)
  then have "snd (i, c') \<in> snd ` set (sigbit_driver_map n)" by (rule imageI)
  then show ?case by simp
qed

section \<open>Runs without a fault\<close>

lemma next_sig_in_dag_no_fault:
  "\<forall>fr \<in> set (dfs_path_stack it). fr \<noteq> [] \<Longrightarrow>
   \<exists>it'. next_sig_in_dag it = Inr it' \<and> (\<forall>fr \<in> set (dfs_path_stack it'). fr \<noteq> [])"
proof (induction it rule: next_sig_in_dag.induct)
  case (1 it)
  show ?case
  proof (cases "dfs_path_stack it")
    case Nil
    then show ?thesis by (simp add: next_sig_in_dag.simps[of it])
  next
    case (Cons frame below)
    note st = Cons
    with "1.prems" obtain x rest where fr: "frame = x # rest" by (cases frame) auto
    show ?thesis
    proof (cases rest)
      case Nil
      from "1.prems" st have "\<forall>fr \<in> set (dfs_path_stack (it\<lparr>dfs_path_stack := below\<rparr>)). fr \<noteq> []"
        by simp
      from "1.IH"[OF st fr Nil this] st fr Nil show ?thesis
        by (simp add: next_sig_in_dag.simps[of it])
    next
      case (Cons y ys)
      with st fr "1.prems" show ?thesis by (simp add: next_sig_in_dag.simps[of it])
    qed
  qed
qed

lemma wire_incr_no_fault:
  assumes wf: "\<forall>c \<in> snd ` set (sigbit_driver_map (net it)). \<exists>x xs. map_of (cell_inputs_map (net it)) c = Some (x # xs)"
    and frames: "\<forall>fr \<in> set (dfs_path_stack it). fr \<noteq> []"
  shows "\<exists>it'. wire_incr it = Inr it' \<and> (\<forall>fr \<in> set (dfs_path_stack it'). fr \<noteq> [])"
proof (cases "fresh_driver it")
  case None
  with next_sig_in_dag_no_fault[OF frames] show ?thesis by (simp add: wire_incr_stale)
next
  case (Some c)
  from fresh_driver_Some[OF Some] have drv: "map_of (sigbit_driver_map (net it)) (sig it) = Some c"
    and nv: "c \<notin> cells_visited it" by simp_all
  from drv have "(sig it, c) \<in> set (sigbit_driver_map (net it))" by (rule map_of_SomeD)
  then have "snd (sig it, c) \<in> snd ` set (sigbit_driver_map (net it))" by (rule imageI)
  with wf obtain x xs where "map_of (cell_inputs_map (net it)) c = Some (x # xs)" by auto
  with drv nv frames show ?thesis by (simp add: wire_incr_cases)
qed

lemma wire_drain_no_fault:
  "\<forall>c \<in> snd ` set (sigbit_driver_map (net it)). \<exists>x xs. map_of (cell_inputs_map (net it)) c = Some (x # xs) \<Longrightarrow>
   \<forall>fr \<in> set (dfs_path_stack it). fr \<noteq> [] \<Longrightarrow>
   \<exists>f. snd (wire_drain it) = Inr f \<and> sentinel f"
proof (induction it rule: wire_drain.induct)
  case (1 it)
  show ?case
  proof (cases "sentinel it")
    case True
    then show ?thesis by (simp add: wire_drain_sentinel)
  next
    case False
    then have live: "wire_neq it (NetlistConeWireIter_sentinel (net it))" by simp
    from wire_incr_no_fault[OF "1.prems"] obtain it' where step: "wire_incr it = Inr it'"
      and fr: "\<forall>fr \<in> set (dfs_path_stack it'). fr \<noteq> []" by blast
    from "1.prems"(1) wire_incr_net[OF step]
    have wf: "\<forall>c \<in> snd ` set (sigbit_driver_map (net it')). \<exists>x xs. map_of (cell_inputs_map (net it')) c = Some (x # xs)"
      by simp
    from "1.IH"[OF live step wf fr] False step show ?thesis by (simp add: wire_drain_live)
  qed
qed

lemma wire_incr_in_cone_no_fault:
  assumes so: "sound_inv s it"
    and ne: "\<forall>c \<in> fanin_cells (net it) s. \<exists>x xs. map_of (cell_inputs_map (net it)) c = Some (x # xs)"
    and frames: "\<forall>fr \<in> set (dfs_path_stack it). fr \<noteq> []"
  shows "\<exists>it'. wire_incr it = Inr it' \<and> (\<forall>fr \<in> set (dfs_path_stack it'). fr \<noteq> [])"
proof (cases "fresh_driver it")
  case None
  with next_sig_in_dag_no_fault[OF frames] show ?thesis by (simp add: wire_incr_stale)
next
  case (Some c)
  from fresh_driver_Some[OF Some] have drv: "map_of (sigbit_driver_map (net it)) (sig it) = Some c"
    and nv: "c \<notin> cells_visited it" by simp_all
  from so drv have "c \<in> fanin_cells (net it) s" by (simp add: sound_inv_def in_cone_def)
  with ne obtain x xs where "map_of (cell_inputs_map (net it)) c = Some (x # xs)" by blast
  with drv nv frames show ?thesis by (simp add: wire_incr_cases)
qed

lemma wire_drain_in_cone_no_fault:
  "sound_inv s it \<Longrightarrow>
   \<forall>c \<in> fanin_cells (net it) s. \<exists>x xs. map_of (cell_inputs_map (net it)) c = Some (x # xs) \<Longrightarrow>
   \<forall>fr \<in> set (dfs_path_stack it). fr \<noteq> [] \<Longrightarrow>
   \<exists>f. snd (wire_drain it) = Inr f"
proof (induction it rule: wire_drain.induct)
  case (1 it)
  show ?case
  proof (cases "sentinel it")
    case True
    then show ?thesis by (simp add: wire_drain_sentinel)
  next
    case False
    then have live: "wire_neq it (NetlistConeWireIter_sentinel (net it))" by simp
    from wire_incr_in_cone_no_fault[OF "1.prems"] obtain it' where step: "wire_incr it = Inr it'"
      and fr: "\<forall>fr \<in> set (dfs_path_stack it'). fr \<noteq> []" by blast
    from "1.prems"(2) wire_incr_net[OF step]
    have ne: "\<forall>c \<in> fanin_cells (net it') s. \<exists>x xs. map_of (cell_inputs_map (net it')) c = Some (x # xs)"
      by simp
    from "1.IH"[OF live step wire_incr_sound[OF "1.prems"(1) step] ne fr] False step show ?thesis
      by (simp add: wire_drain_live)
  qed
qed

section \<open>The cell iterator follows the trace\<close>

lemma has_driver_cell_conv:
  "has_driver_cell ci s = (map_of (sigbit_driver_map (cell_net ci)) s \<noteq> None)"
  by (simp add: has_driver_cell_def dict_count_def split: option.splits)

lemma expansions_live:
  "\<not> sentinel w \<Longrightarrow>
   expansions w = (case fresh_driver w of None \<Rightarrow> later_expansions w | Some c \<Rightarrow> c # later_expansions w)"
  by (simp add: wire_trace_live later_expansions_def split: sum.splits option.splits)

lemma wire_drain_end_live: "\<not> sentinel w \<Longrightarrow> snd (wire_drain w) = later_end w"
  by (simp add: wire_drain_live later_end_def split: sum.splits)

lemma cell_incr_follows:
  "cell_net ci = net (sig_iter ci) \<Longrightarrow> \<not> sentinel (sig_iter ci) \<Longrightarrow>
   (case cell_incr ci of
      Inl e \<Rightarrow> later_expansions (sig_iter ci) = [] \<and> later_end (sig_iter ci) = Inl e
    | Inr ci' \<Rightarrow>
        later_expansions (sig_iter ci) = expansions (sig_iter ci')
        \<and> later_end (sig_iter ci) = snd (wire_drain (sig_iter ci'))
        \<and> (sentinel (sig_iter ci') \<or> fresh_driver (sig_iter ci') \<noteq> None))"
proof (induction ci rule: cell_incr.induct)
  case (1 ci)
  let ?w0 = "sig_iter ci"
  show ?case
  proof (cases "wire_incr ?w0")
    case (Inl e)
    then show ?thesis
      by (simp add: cell_incr.simps[of ci] later_expansions_def later_end_def)
  next
    case (Inr w)
    note w = Inr
    note wn = wire_incr_net[OF w]
    let ?ci1 = "ci\<lparr>sig_iter := w\<rparr>"
    have le: "later_expansions ?w0 = expansions w" and ld: "later_end ?w0 = snd (wire_drain w)"
      using w by (simp_all add: later_expansions_def later_end_def)
    show ?thesis
    proof (cases "sentinel w")
      case True
      with w have "cell_incr ci = Inr ?ci1" by (simp add: cell_incr.simps[of ci])
      with le ld True show ?thesis by simp
    next
      case ns: False
      show ?thesis
      proof (cases "fresh_driver w")
        case (Some c)
        then have "map_of (sigbit_driver_map (net w)) (sig w) = Some c" "c \<notin> cells_visited w"
          using fresh_driver_Some by fastforce+
        with w ns "1.prems"(1) wn have "cell_incr ci = Inr ?ci1"
          by (simp add: cell_incr.simps[of ci] has_driver_cell_conv wire_deref_def dict_at_def)
        with le ld Some show ?thesis by simp
      next
        case None
        have le1: "expansions w = later_expansions w" using ns None by (simp add: expansions_live)
        have ld1: "snd (wire_drain w) = later_end w" using ns by (rule wire_drain_end_live)
        have nets: "cell_net ?ci1 = net (sig_iter ?ci1)" using "1.prems"(1) wn by simp
        have ns1: "\<not> sentinel (sig_iter ?ci1)" using ns by simp
        show ?thesis
        proof (cases "has_driver_cell ?ci1 (wire_deref w)")
          case hd: True
          with None "1.prems"(1) wn obtain cell where
            c: "dict_at (sigbit_driver_map (cell_net ci)) (wire_deref w) = Inr cell"
            and cv: "\<not> cell \<notin> cells_visited w"
            by (auto simp: has_driver_cell_conv wire_deref_def dict_at_def fresh_driver_def
                split: option.splits if_splits)
          with w ns hd have rec: "cell_incr ci = cell_incr ?ci1"
            by (simp add: cell_incr.simps[of ci])
          from "1.IH"(1)[OF w ns hd c cv nets ns1] show ?thesis
            unfolding rec le ld le1 ld1 by (simp split: sum.splits)
        next
          case nhd: False
          with w ns have rec: "cell_incr ci = cell_incr ?ci1"
            by (simp add: cell_incr.simps[of ci])
          from "1.IH"(2)[OF w ns nhd nets ns1] show ?thesis
            unfolding rec le ld le1 ld1 by (simp split: sum.splits)
        qed
      qed
    qed
  qed
qed

lemma cell_drain_follows:
  "cell_net ci = net (sig_iter ci) \<Longrightarrow>
   sentinel (sig_iter ci) \<or> fresh_driver (sig_iter ci) \<noteq> None \<Longrightarrow>
   fst (cell_drain ci) = expansions (sig_iter ci)
   \<and> map_sum id sig_iter (snd (cell_drain ci)) = snd (wire_drain (sig_iter ci))"
proof (induction ci rule: cell_drain.induct)
  case (1 ci)
  show ?case
  proof (cases "sentinel (sig_iter ci)")
    case True
    then show ?thesis
      by (simp add: cell_drain_sentinel wire_trace_sentinel wire_drain_sentinel)
  next
    case False
    then have live: "cell_neq ci (NetlistConeCellIter_sentinel (cell_net ci))" by simp
    from False "1.prems"(2) obtain c where fd: "fresh_driver (sig_iter ci) = Some c" by auto
    from fresh_driver_Some[OF fd] "1.prems"(1) have de: "cell_deref ci = Inr c"
      by (simp add: cell_deref_def dict_at_def wire_deref_def)
    have ex: "expansions (sig_iter ci) = c # later_expansions (sig_iter ci)"
      using False fd by (simp add: expansions_live)
    have en: "snd (wire_drain (sig_iter ci)) = later_end (sig_iter ci)"
      using False by (rule wire_drain_end_live)
    note follows = cell_incr_follows[OF "1.prems"(1) False]
    show ?thesis
    proof (cases "cell_incr ci")
      case (Inl e)
      with follows False de show ?thesis unfolding ex en by (simp add: cell_drain_live)
    next
      case (Inr ci')
      with follows have le: "later_expansions (sig_iter ci) = expansions (sig_iter ci')"
        and ld: "later_end (sig_iter ci) = snd (wire_drain (sig_iter ci'))"
        and pos: "sentinel (sig_iter ci') \<or> fresh_driver (sig_iter ci') \<noteq> None"
        by simp_all
      from cell_incr_facts[OF Inr] "1.prems"(1) have nets: "cell_net ci' = net (sig_iter ci')" by simp
      from "1.IH"[OF live de Inr nets pos] False de Inr show ?thesis
        unfolding ex en le ld by (simp add: cell_drain_live)
    qed
  qed
qed

lemma cell_seq_follows:
  "fst (cell_seq (cell_cone n b)) = expansions (wire_begin (cone n b))
   \<and> map_sum id sig_iter (snd (cell_seq (cell_cone n b))) = snd (wire_seq (cone n b))"
proof -
  let ?w = "NetlistConeWireIter_at n (sigmap n b)"
  let ?ci = "\<lparr>cell_net = n, sig_iter = ?w\<rparr>"
  have live: "\<not> sentinel ?w" and nw: "net ?w = n" by (simp_all add: NetlistConeWireIter_at_def)
  have wb: "wire_begin (cone n b) = ?w" by (simp add: wire_begin_def cone_def)
  have nets: "cell_net ?ci = net (sig_iter ?ci)" using nw by simp
  show ?thesis
  proof (cases "fresh_driver ?w")
    case (Some c)
    then have "has_driver_cell ?ci (wire_deref ?w)"
      using fresh_driver_Some[OF Some] by (simp add: has_driver_cell_conv wire_deref_def nw)
    then have b: "cell_begin (cell_cone n b) = Inr ?ci"
      by (simp add: cell_begin_def cell_cone_def NetlistConeCellIter_at_def)
    from cell_drain_follows[OF nets] Some show ?thesis
      unfolding wb wire_seq_def cell_seq_def b by simp
  next
    case None
    then have "map_of (sigbit_driver_map n) (sigmap n b) = None"
      by (auto simp: fresh_driver_def NetlistConeWireIter_at_def split: option.splits if_splits)
    then have "\<not> has_driver_cell ?ci (wire_deref ?w)"
      by (simp add: has_driver_cell_conv wire_deref_def NetlistConeWireIter_at_def)
    with live have b: "cell_begin (cell_cone n b) = cell_incr ?ci"
      by (simp add: cell_begin_def cell_cone_def NetlistConeCellIter_at_def)
    have ex: "expansions ?w = later_expansions ?w" using live None by (simp add: expansions_live)
    have en: "snd (wire_drain ?w) = later_end ?w" using live by (rule wire_drain_end_live)
    have follows: "case cell_incr ?ci of
        Inl e \<Rightarrow> later_expansions ?w = [] \<and> later_end ?w = Inl e
      | Inr ci' \<Rightarrow> later_expansions ?w = expansions (sig_iter ci')
          \<and> later_end ?w = snd (wire_drain (sig_iter ci'))
          \<and> (sentinel (sig_iter ci') \<or> fresh_driver (sig_iter ci') \<noteq> None)"
      using cell_incr_follows[OF nets] live by (simp split: sum.splits)
    show ?thesis
    proof (cases "cell_incr ?ci")
      case (Inl e)
      with follows show ?thesis unfolding wb wire_seq_def cell_seq_def b ex en by simp
    next
      case (Inr ci)
      with follows have le: "later_expansions ?w = expansions (sig_iter ci)"
        and ld: "later_end ?w = snd (wire_drain (sig_iter ci))"
        and pos: "sentinel (sig_iter ci) \<or> fresh_driver (sig_iter ci) \<noteq> None"
        by simp_all
      from cell_incr_facts[OF Inr] nw have nets': "cell_net ci = net (sig_iter ci)" by simp
      from cell_drain_follows[OF nets' pos] show ?thesis
        unfolding wb wire_seq_def cell_seq_def b ex en le ld Inr by simp
    qed
  qed
qed

section \<open>Index construction\<close>

lemma sigmap_setup_cell [simp]: "sigmap (setup_cell ct pc n) = sigmap n"
proof -
  have "sigmap (fold (\<lambda>bit m. m\<lparr>sigbit_driver_map := dict_set (sigbit_driver_map m) bit c\<rparr>) bits m0)
          = sigmap m0" for bits c and m0 :: "('a, 'b) Netlist"
    by (induction bits arbitrary: m0) simp_all
  then show ?thesis by (simp add: setup_cell_def Let_def)
qed

lemma sigmap_setup_netlist [simp]: "sigmap (setup_netlist n m ct) = sigmap n"
  unfolding setup_netlist_def by (induction m arbitrary: n) simp_all

lemma sigmap_Netlist_of [simp]: "sigmap (Netlist_of m sm ct) = sm"
  by (simp add: Netlist_of_def)

lemma set_set_insert [simp]: "set (set_insert x s) = insert x (set s)"
  by (auto simp: set_insert_def set_insort_key)

lemma set_set_insert_range [simp]: "set (set_insert_range bits s) = set bits \<union> set s"
  unfolding set_insert_range_def by (induction bits arbitrary: s) auto

lemma fold_add_port_outputs:
  "set (snd (fold (add_port ct sm ty) conns io)) =
     set (snd io) \<union> {sb. \<exists>port \<in> set conns. cell_output ct ty (fst port) \<and> sb \<in> sm ` set (snd port)}"
proof (induction conns arbitrary: io)
  case Nil
  show ?case by simp
next
  case (Cons p ps)
  show ?case unfolding fold_simps Cons.IH by (auto simp: add_port_def Let_def)
qed

lemma cell_ports_outputs: "set (snd (cell_ports ct sm cell)) = {sb. drives_bit ct sm cell sb}"
  by (simp add: cell_ports_def fold_add_port_outputs drives_bit_def)

lemma map_of_dict_set [simp]: "map_of (dict_set d k v) = (map_of d)(k \<mapsto> v)"
  by (simp add: dict_set_def update_conv')

lemma fold_drivers_lookup:
  "map_of (sigbit_driver_map
             (fold (\<lambda>sb m. m\<lparr>sigbit_driver_map := dict_set (sigbit_driver_map m) sb c\<rparr>) bits n)) b
     = (if b \<in> set bits then Some c else map_of (sigbit_driver_map n) b)"
  by (induction bits arbitrary: n) auto

lemma fold_drivers_inputs:
  "cell_inputs_map (fold (\<lambda>sb m. m\<lparr>sigbit_driver_map := dict_set (sigbit_driver_map m) sb c\<rparr>) bits n)
     = cell_inputs_map n"
  by (induction bits arbitrary: n) simp_all

lemma setup_cell_driver:
  "map_of (sigbit_driver_map (setup_cell ct pc n)) sb =
     (if cell_known ct (cell_type (snd pc)) \<and> drives_bit ct (sigmap n) (snd pc) sb
      then Some (fst pc) else map_of (sigbit_driver_map n) sb)"
  by (simp add: setup_cell_def Let_def fold_drivers_lookup cell_ports_outputs)

lemma setup_cell_inputs:
  "map_of (cell_inputs_map (setup_cell ct pc n)) c =
     (if cell_known ct (cell_type (snd pc)) \<and> c = fst pc
      then Some (fst (cell_ports ct (sigmap n) (snd pc))) else map_of (cell_inputs_map n) c)"
  by (simp add: setup_cell_def Let_def fold_drivers_inputs)

lemma setup_netlist_driver_origin:
  "map_of (sigbit_driver_map (setup_netlist n m ct)) sb = Some c \<Longrightarrow>
     map_of (sigbit_driver_map n) sb = Some c
     \<or> (\<exists>cell. (c, cell) \<in> set m \<and> cell_known ct (cell_type cell) \<and> drives_bit ct (sigmap n) cell sb)"
  unfolding setup_netlist_def
proof (induction m arbitrary: n)
  case Nil
  then show ?case by simp
next
  case (Cons pc m)
  from Cons.prems have "map_of (sigbit_driver_map (fold (setup_cell ct) m (setup_cell ct pc n))) sb = Some c"
    by simp
  from Cons.IH[OF this] show ?case
    by (cases pc) (auto simp: setup_cell_driver split: if_splits)
qed

lemma setup_netlist_inputs_origin:
  "map_of (cell_inputs_map (setup_netlist n m ct)) c = Some ins \<Longrightarrow>
     map_of (cell_inputs_map n) c = Some ins
     \<or> (\<exists>cell. (c, cell) \<in> set m \<and> cell_known ct (cell_type cell))"
  unfolding setup_netlist_def
proof (induction m arbitrary: n)
  case Nil
  then show ?case by simp
next
  case (Cons pc m)
  from Cons.prems have "map_of (cell_inputs_map (fold (setup_cell ct) m (setup_cell ct pc n))) c = Some ins"
    by simp
  from Cons.IH[OF this] show ?case
    by (cases pc) (auto simp: setup_cell_inputs split: if_splits)
qed

lemma setup_netlist_driver_untouched:
  "\<forall>pc \<in> set m. cell_known ct (cell_type (snd pc)) \<longrightarrow> \<not> drives_bit ct (sigmap n) (snd pc) sb \<Longrightarrow>
   map_of (sigbit_driver_map (setup_netlist n m ct)) sb = map_of (sigbit_driver_map n) sb"
  unfolding setup_netlist_def
  by (induction m arbitrary: n) (auto simp add: setup_cell_driver)

lemma setup_netlist_append:
  "setup_netlist n (pre @ post) ct = setup_netlist (setup_netlist n pre ct) post ct"
  by (simp add: setup_netlist_def)

lemma setup_netlist_Cons:
  "setup_netlist n (pc # post) ct = setup_netlist (setup_cell ct pc n) post ct"
  by (simp add: setup_netlist_def)

lemma setup_netlist_last_driver:
  assumes "cell_known ct (cell_type cell)" "drives_bit ct (sigmap n) cell sb"
    and "\<forall>pc \<in> set post. cell_known ct (cell_type (snd pc)) \<longrightarrow> \<not> drives_bit ct (sigmap n) (snd pc) sb"
  shows "map_of (sigbit_driver_map (setup_netlist n (pre @ (c, cell) # post) ct)) sb = Some c"
proof -
  let ?n1 = "setup_cell ct (c, cell) (setup_netlist n pre ct)"
  have "map_of (sigbit_driver_map (setup_netlist ?n1 post ct)) sb = map_of (sigbit_driver_map ?n1) sb"
    by (rule setup_netlist_driver_untouched) (use assms(3) in simp)
  also have "\<dots> = Some c" using assms(1,2) by (simp add: setup_cell_driver)
  finally show ?thesis by (simp add: setup_netlist_append setup_netlist_Cons)
qed

section \<open>The example modules, evaluated\<close>

lemmas netlist_eval = Netlist_of_def setup_netlist_def setup_cell_def cell_ports_def add_port_def
  set_insert_range_def set_insert_def dict_set_def comb_types_def Let_def

lemma loop_netlist:
  "x \<noteq> y \<Longrightarrow> A \<noteq> B \<Longrightarrow>
   Netlist_of (loop_module A B x y) id comb_types =
     \<lparr>sigmap = id, sigbit_driver_map = [(x, A), (y, B)], cell_inputs_map = [(A, [y]), (B, [x])]\<rparr>"
  by (simp add: netlist_eval loop_module_def)

lemma anyconst_netlist:
  "Netlist_of (anyconst_module c y) id comb_types =
     \<lparr>sigmap = id, sigbit_driver_map = [(y, c)], cell_inputs_map = [(c, [])]\<rparr>"
  by (simp add: netlist_eval anyconst_module_def)

lemma and_netlist:
  "distinct [in0, in1, in2, w1, out] \<Longrightarrow> c1 \<noteq> c2 \<Longrightarrow>
   Netlist_of (and_module c1 c2 in0 in1 in2 w1 out) id comb_types =
     \<lparr>sigmap = id, sigbit_driver_map = [(w1, c1), (out, c2)],
      cell_inputs_map = [(c1, if in0 < in1 then [in0, in1] else [in1, in0]),
                         (c2, if w1 < in2 then [w1, in2] else [in2, w1])]\<rparr>"
  by (auto simp add: netlist_eval and_module_def)

lemmas wire_eval = wire_seq_def cone_def wire_begin_def NetlistConeWireIter_at_def
  wire_drain_sentinel wire_drain_live wire_incr_cases wire_deref_def next_sig_in_dag.simps

lemmas cell_eval = cell_seq_def cell_cone_def cell_begin_def NetlistConeCellIter_at_def NetlistConeWireIter_at_def Let_def
  has_driver_cell_def dict_count_def dict_at_def cell_deref_def cell_incr.simps
  cell_drain_sentinel cell_drain_live wire_incr_cases wire_deref_def next_sig_in_dag.simps

lemma loop_wire_seq:
  assumes "x \<noteq> y" "A \<noteq> B"
  shows "wire_seq (cone (Netlist_of (loop_module A B x y) id comb_types) x) =
     ([x, y, x], Inr \<lparr>net = Netlist_of (loop_module A B x y) id comb_types, sig = x, sentinel = True,
         dfs_path_stack = [], cells_visited = {B, A}\<rparr>)"
  unfolding loop_netlist[OF assms] using assms by (simp add: wire_eval)

lemma loop_cell_seq_full:
  assumes "x \<noteq> y" "A \<noteq> B"
  shows "cell_seq (cell_cone (Netlist_of (loop_module A B x y) id comb_types) x) =
     ([A, B], Inr \<lparr>cell_net = Netlist_of (loop_module A B x y) id comb_types,
        sig_iter = \<lparr>net = Netlist_of (loop_module A B x y) id comb_types, sig = x, sentinel = True,
         dfs_path_stack = [], cells_visited = {B, A}\<rparr>\<rparr>)"
  unfolding loop_netlist[OF assms] using assms by (simp add: cell_eval)

lemma loop_fresh_drivers:
  assumes "x \<noteq> y" "A \<noteq> B"
  shows "map (\<lambda>it. (sig it, A \<in> cells_visited it, fresh_driver it))
           (wire_trace (wire_begin (cone (Netlist_of (loop_module A B x y) id comb_types) x)))
           = [(x, False, Some A), (y, True, Some B), (x, True, None)]"
  unfolding loop_netlist[OF assms] using assms
  by (simp add: cone_def wire_begin_def NetlistConeWireIter_at_def wire_trace_live wire_trace_sentinel
      wire_incr_cases next_sig_in_dag.simps fresh_driver_def)

lemma and_wire_seq:
  assumes "distinct [in0, in1, in2, w1, out]" "c1 \<noteq> c2"
  shows "fst (wire_seq (cone (Netlist_of (and_module c1 c2 in0 in1 in2 w1 out) id comb_types) out)) =
     out # (if w1 < in2
            then w1 # (if in0 < in1 then [in0, in1] else [in1, in0]) @ [in2]
            else in2 # w1 # (if in0 < in1 then [in0, in1] else [in1, in0]))"
  unfolding and_netlist[OF assms] using assms by (auto simp add: wire_eval)

lemma and_cell_seq:
  assumes "distinct [in0, in1, in2, w1, out]" "c1 \<noteq> c2"
  shows "fst (cell_seq (cell_cone (Netlist_of (and_module c1 c2 in0 in1 in2 w1 out) id comb_types) out)) = [c2, c1]"
  unfolding and_netlist[OF assms] using assms by (auto simp add: cell_eval)

lemma anyconst_and_netlist:
  "Netlist_of (anyconst_and_module ''c0'' ''c1'' ''c2'' (1::nat) 2 3 4) id comb_types =
     \<lparr>sigmap = id, sigbit_driver_map = [(2, ''c0''), (3, ''c1''), (4, ''c2'')],
      cell_inputs_map = [(''c0'', []), (''c1'', [1]), (''c2'', [2, 3])]\<rparr>"
  by (simp add: netlist_eval anyconst_and_module_def)

lemma ring_anyconst_netlist:
  "Netlist_of (ring_anyconst_module ''A'' ''B'' ''c0'' (1::nat) 2 3) id comb_types =
     \<lparr>sigmap = id, sigbit_driver_map = [(1, ''A''), (2, ''B''), (3, ''c0'')],
      cell_inputs_map = [(''A'', [2, 3]), (''B'', [1]), (''c0'', [])]\<rparr>"
  by (simp add: netlist_eval ring_anyconst_module_def)

section \<open>The start bit and undriven bits\<close>

text \<open>
  C2, as amended.  The sequence read from \<open>cone n b\<close> always begins with the canonical form of
  the start bit: \<^verbatim>\<open>begin()\<close> returns an iterator that is not the sentinel and whose \<^verbatim>\<open>sig\<close> is
  the start bit, so the loop reads it before the first \<^verbatim>\<open>operator++\<close> expands its driver.
\<close>

theorem cone_starts_with_start_bit: "\<exists>xs. fst (wire_seq (cone n b)) = sigmap n b # xs"
  by (simp add: wire_seq_def cone_def wire_begin_def NetlistConeWireIter_at_def wire_drain_live
      wire_deref_def split: sum.split)

text \<open>C2 as stated fails: in the module of two AND cells with \<open>in0, in1, in2, w1, out\<close> being the
  bits \<open>1, 2, 3, 4, 5\<close>, the cone of \<open>out\<close> contains \<open>out\<close>.\<close>

theorem cone_contains_start_bit_counterexample:
  "(5::nat) \<in> set (fst (wire_seq (cone (Netlist_of (and_module ''c1'' ''c2'' 1 2 3 4 5) id comb_types) 5)))"
  by (simp add: and_netlist wire_eval)

text \<open>
  C4, as amended.  For a bit whose canonical form has no entry in the driver map, the sequence
  read from \<open>cone n b\<close> is the one-element sequence holding that canonical bit, and the loop
  ends at the sentinel without a fault.
\<close>

theorem cone_undriven:
  assumes "map_of (sigbit_driver_map n) (sigmap n b) = None"
  shows "wire_seq (cone n b) =
           ([sigmap n b], Inr ((NetlistConeWireIter_at n (sigmap n b))\<lparr>sentinel := True\<rparr>))"
  using assms
  by (simp add: wire_seq_def cone_def wire_begin_def wire_drain_live wire_incr_undriven
      NetlistConeWireIter_at_def wire_drain_sentinel wire_deref_def)

theorem cone_undriven_witness:
  "map_of (sigbit_driver_map (Netlist_of (loop_module ''A'' ''B'' (1::nat) 2) id comb_types))
          (sigmap (Netlist_of (loop_module ''A'' ''B'' 1 2) id comb_types) 3) = None
   \<and> fst (wire_seq (cone (Netlist_of (loop_module ''A'' ''B'' (1::nat) 2) id comb_types) 3)) = [3]"
proof -
  let ?n = "Netlist_of (loop_module ''A'' ''B'' (1::nat) 2) id comb_types"
  have h: "map_of (sigbit_driver_map ?n) (sigmap ?n 3) = None"
    by (simp add: loop_netlist)
  show ?thesis using h cone_undriven[OF h] by simp
qed

text \<open>C4 as stated fails: bit \<open>3\<close> has no driver in the ring of two inverters over bits \<open>1\<close> and
  \<open>2\<close>, and its cone is not empty.\<close>

theorem cone_undriven_empty_counterexample:
  "map_of (sigbit_driver_map (Netlist_of (loop_module ''A'' ''B'' (1::nat) 2) id comb_types))
          (sigmap (Netlist_of (loop_module ''A'' ''B'' 1 2) id comb_types) 3) = None
   \<and> fst (wire_seq (cone (Netlist_of (loop_module ''A'' ''B'' (1::nat) 2) id comb_types) 3)) \<noteq> []"
  by (simp add: loop_netlist wire_eval)

text \<open>
  C10.  For a bit whose canonical form has no entry in the driver map, the constructor of the
  cell iterator advances the inner bit iterator, which reaches the sentinel at once, and the
  sequence read from \<open>cell_cone n b\<close> is empty.
\<close>

theorem cell_cone_undriven:
  assumes "map_of (sigbit_driver_map n) (sigmap n b) = None"
  shows "cell_begin (cell_cone n b) =
           Inr \<lparr>cell_net = n, sig_iter = (NetlistConeWireIter_at n (sigmap n b))\<lparr>sentinel := True\<rparr>\<rparr>
         \<and> fst (cell_seq (cell_cone n b)) = []"
  using assms
  by (simp add: cell_seq_def cell_cone_def cell_begin_def NetlistConeCellIter_at_def
      has_driver_cell_def dict_count_def wire_deref_def cell_incr.simps wire_incr_undriven
      NetlistConeWireIter_at_def cell_drain_sentinel)

theorem cell_cone_undriven_witness:
  "map_of (sigbit_driver_map (Netlist_of (loop_module ''A'' ''B'' (1::nat) 2) id comb_types))
          (sigmap (Netlist_of (loop_module ''A'' ''B'' 1 2) id comb_types) 3) = None
   \<and> fst (cell_seq (cell_cone (Netlist_of (loop_module ''A'' ''B'' (1::nat) 2) id comb_types) 3)) = []"
proof -
  let ?n = "Netlist_of (loop_module ''A'' ''B'' (1::nat) 2) id comb_types"
  have h: "map_of (sigbit_driver_map ?n) (sigmap ?n 3) = None"
    by (simp add: loop_netlist)
  show ?thesis using h cell_cone_undriven[OF h] by simp
qed

section \<open>Repeated calls and canonical start bits\<close>

text \<open>
  C7.  The iterators hold the index by \<^verbatim>\<open>const\<close> reference and no \<^verbatim>\<open>operator++\<close> writes to it:
  every iterator state of a bit traversal refers to the index \<open>n\<close> it was started on, and so
  does the iterator that a traversal which runs to its end leaves behind.  A second call
  therefore works on the same index and the same bit, and reads the same sequence in the same
  order.  This holds for \<open>cone\<close> and for \<open>cell_cone\<close>.
\<close>

theorem cone_calls_leave_index:
  "(\<forall>it \<in> set (wire_trace (wire_begin (cone n b))). net it = n)
   \<and> (\<forall>f. snd (wire_seq (cone n b)) = Inr f \<longrightarrow>
        net f = n \<and> wire_seq (cone (net f) b) = wire_seq (cone n b))
   \<and> (\<forall>f. snd (cell_seq (cell_cone n b)) = Inr f \<longrightarrow>
        cell_net f = n \<and> net (sig_iter f) = n
        \<and> cell_seq (cell_cone (cell_net f) b) = cell_seq (cell_cone n b))"
proof (intro conjI allI impI ballI)
  fix it assume "it \<in> set (wire_trace (wire_begin (cone n b)))"
  then have "net it = net (wire_begin (cone n b))" by (rule wire_trace_net)
  then show "net it = n" by (simp add: wire_begin_def cone_def NetlistConeWireIter_at_def)
next
  fix f assume "snd (wire_seq (cone n b)) = Inr f"
  then have "net f = net (wire_begin (cone n b))" unfolding wire_seq_def by (rule wire_drain_net)
  then show n: "net f = n" by (simp add: wire_begin_def cone_def NetlistConeWireIter_at_def)
  show "wire_seq (cone (net f) b) = wire_seq (cone n b)" unfolding n ..
next
  fix f assume a: "snd (cell_seq (cell_cone n b)) = Inr f"
  then obtain ci where b: "cell_begin (cell_cone n b) = Inr ci" and d: "snd (cell_drain ci) = Inr f"
    by (auto simp: cell_seq_def split: sum.splits)
  from cell_drain_net[OF d] cell_begin_net[OF b] show n: "cell_net f = n" and "net (sig_iter f) = n"
    by simp_all
  show "cell_seq (cell_cone (cell_net f) b) = cell_seq (cell_cone n b)" unfolding n ..
qed

theorem cone_calls_leave_index_witness:
  "\<exists>f g. snd (wire_seq (cone (Netlist_of (loop_module ''A'' ''B'' (1::nat) 2) id comb_types) 1)) = Inr f
     \<and> net f = Netlist_of (loop_module ''A'' ''B'' (1::nat) 2) id comb_types
     \<and> fst (wire_seq (cone (net f) 1)) = [1, 2, 1]
     \<and> snd (cell_seq (cell_cone (Netlist_of (loop_module ''A'' ''B'' (1::nat) 2) id comb_types) 1)) = Inr g
     \<and> cell_net g = Netlist_of (loop_module ''A'' ''B'' (1::nat) 2) id comb_types
     \<and> fst (cell_seq (cell_cone (cell_net g) 1)) = [''A'', ''B'']"
proof -
  let ?n = "Netlist_of (loop_module ''A'' ''B'' (1::nat) 2) id comb_types"
  have w: "wire_seq (cone ?n 1) = ([1, 2, 1], Inr \<lparr>net = ?n, sig = 1, sentinel = True,
         dfs_path_stack = [], cells_visited = {''B'', ''A''}\<rparr>)"
    by (rule loop_wire_seq) simp_all
  have c: "cell_seq (cell_cone ?n 1) = ([''A'', ''B''], Inr \<lparr>cell_net = ?n,
        sig_iter = \<lparr>net = ?n, sig = 1, sentinel = True,
         dfs_path_stack = [], cells_visited = {''B'', ''A''}\<rparr>\<rparr>)"
    by (rule loop_cell_seq_full) simp_all
  from w obtain f where f: "snd (wire_seq (cone ?n 1)) = Inr f" by simp
  from c obtain g where g: "snd (cell_seq (cell_cone ?n 1)) = Inr g" by simp
  note t = cone_calls_leave_index[of ?n 1]
  from t[THEN conjunct2, THEN conjunct1, THEN spec, THEN mp, OF f]
  have "net f = ?n" "wire_seq (cone (net f) 1) = wire_seq (cone ?n 1)" by simp_all
  moreover from t[THEN conjunct2, THEN conjunct2, THEN spec, THEN mp, OF g]
  have "cell_net g = ?n" "cell_seq (cell_cone (cell_net g) 1) = cell_seq (cell_cone ?n 1)" by simp_all
  ultimately have "net f = ?n" "wire_seq (cone (net f) 1) = wire_seq (cone ?n 1)"
       "cell_net g = ?n" "cell_seq (cell_cone (cell_net g) 1) = cell_seq (cell_cone ?n 1)"
    by simp_all
  with f g w c show ?thesis by (intro exI[of _ f] exI[of _ g]) simp
qed

text \<open>
  C9.  Both entry points apply \<^verbatim>\<open>net.sigmap\<close> to the start bit before they build the iterable,
  so both traversals start on the canonical bit.  \<^verbatim>\<open>SigMap\<close> maps a bit to the representative
  of its class, so mapping a representative changes nothing; under this property of the
  canonicalizer, \<open>cone n b\<close> and \<open>cone n (sigmap n b)\<close> read the same sequence, and so do the
  two cell cones.
\<close>

theorem cone_canonical_start:
  "wire_begin (cone n b) = NetlistConeWireIter_at n (sigmap n b)
   \<and> cell_begin (cell_cone n b) = NetlistConeCellIter_at n (sigmap n b)
   \<and> (sigmap n (sigmap n b) = sigmap n b \<longrightarrow>
        wire_seq (cone n b) = wire_seq (cone n (sigmap n b))
        \<and> cell_seq (cell_cone n b) = cell_seq (cell_cone n (sigmap n b)))"
  by (simp add: cone_def cell_cone_def wire_begin_def cell_begin_def)

theorem cone_canonical_start_witness:
  "sigmap (Netlist_of (loop_module ''A'' ''B'' (1::nat) 2) (\<lambda>b. if b = 7 then 1 else b) comb_types)
     (sigmap (Netlist_of (loop_module ''A'' ''B'' (1::nat) 2) (\<lambda>b. if b = 7 then 1 else b) comb_types) 7)
   = sigmap (Netlist_of (loop_module ''A'' ''B'' (1::nat) 2) (\<lambda>b. if b = 7 then 1 else b) comb_types) 7
   \<and> sigmap (Netlist_of (loop_module ''A'' ''B'' (1::nat) 2) (\<lambda>b. if b = 7 then 1 else b) comb_types) 7 = 1
   \<and> wire_seq (cone (Netlist_of (loop_module ''A'' ''B'' (1::nat) 2) (\<lambda>b. if b = 7 then 1 else b) comb_types) 7)
     = wire_seq (cone (Netlist_of (loop_module ''A'' ''B'' (1::nat) 2) (\<lambda>b. if b = 7 then 1 else b) comb_types) 1)
   \<and> cell_seq (cell_cone (Netlist_of (loop_module ''A'' ''B'' (1::nat) 2) (\<lambda>b. if b = 7 then 1 else b) comb_types) 7)
     = cell_seq (cell_cone (Netlist_of (loop_module ''A'' ''B'' (1::nat) 2) (\<lambda>b. if b = 7 then 1 else b) comb_types) 1)"
proof -
  let ?n = "Netlist_of (loop_module ''A'' ''B'' (1::nat) 2) (\<lambda>b. if b = 7 then 1 else b) comb_types"
  have h: "sigmap ?n (sigmap ?n 7) = sigmap ?n 7" by simp
  have s: "sigmap ?n 7 = 1" by simp
  have "wire_seq (cone ?n 7) = wire_seq (cone ?n (sigmap ?n 7))
        \<and> cell_seq (cell_cone ?n 7) = cell_seq (cell_cone ?n (sigmap ?n 7))"
    using cone_canonical_start[of ?n 7, THEN conjunct2, THEN conjunct2] h by (rule mp)
  then have e: "wire_seq (cone ?n 7) = wire_seq (cone ?n 1)"
    "cell_seq (cell_cone ?n 7) = cell_seq (cell_cone ?n 1)" unfolding s by simp_all
  show ?thesis by (intro conjI) (rule h s e)+
qed

section \<open>A driver cell without input bits\<close>

text \<open>
  C6.  A classified cell with an output port and no input port gets an empty input set.  When
  \<^verbatim>\<open>operator++\<close> expands it, it pushes \<^verbatim>\<open>(inputs.begin(), inputs.end())\<close> and reads
  \<^verbatim>\<open>*dfs_path_stack.top().first\<close> at once: the frame is not popped first, and the read is of
  the end iterator of an empty set.
\<close>

theorem cone_empty_input_set_faults:
  "wire_seq (cone (Netlist_of (anyconst_module ''c0'' (1::nat)) id comb_types) 1)
     = ([1], Inl EndIteratorDeref)"
  unfolding anyconst_netlist by (simp add: wire_eval)

section \<open>Termination, also on combinational loops\<close>

text \<open>
  For every index and every start bit the loop of the model stops, at the sentinel or at a
  fault.  The loop reads at most one bit more than the summed weights of the driving cells (a
  cell weighs one more than the number of its recorded input bits), whether or not the cells
  form a cycle.  No cell has its input set pushed twice: the cells that \<^verbatim>\<open>operator++\<close>
  expands along the traversal are pairwise distinct, since a cell is entered in
  \<^verbatim>\<open>cells_visited\<close> when it is expanded and an iterator standing on a bit whose driver is
  visited only advances.  When every driving cell has a
  recorded, non-empty input set the loop ends at the sentinel without a fault.  In the ring of
  two cells \<open>A -> bitX -> B -> bitY -> A\<close> the cone of \<open>bitX\<close> is \<open>bitX, bitY, bitX\<close>: it
  contains \<open>bitY\<close>; \<open>A\<close> is expanded at the first bit and \<open>B\<close> at the second, and at the third bit,
  which \<open>A\<close> drives, nothing is expanded, \<open>A\<close> being in \<^verbatim>\<open>cells_visited\<close> by then.
\<close>

theorem cone_terminates:
  "length (fst (wire_seq (cone n b))) \<le> 1 + (\<Sum>c \<in> snd ` set (sigbit_driver_map n). cell_weight n c)
   \<and> distinct (List.map_filter fresh_driver (wire_trace (wire_begin (cone n b))))
   \<and> ((\<forall>c \<in> snd ` set (sigbit_driver_map n). \<exists>x xs. map_of (cell_inputs_map n) c = Some (x # xs))
        \<longrightarrow> (\<exists>f. snd (wire_seq (cone n b)) = Inr f \<and> sentinel f))
   \<and> (bitX \<noteq> bitY \<and> A \<noteq> B \<longrightarrow>
        wire_seq (cone (Netlist_of (loop_module A B bitX bitY) id comb_types) bitX) =
          ([bitX, bitY, bitX],
           Inr \<lparr>net = Netlist_of (loop_module A B bitX bitY) id comb_types, sig = bitX,
                sentinel = True, dfs_path_stack = [], cells_visited = {B, A}\<rparr>)
        \<and> map (\<lambda>it. (sig it, A \<in> cells_visited it, fresh_driver it))
            (wire_trace (wire_begin (cone (Netlist_of (loop_module A B bitX bitY) id comb_types) bitX)))
           = [(bitX, False, Some A), (bitY, True, Some B), (bitX, True, None)])"
proof (intro conjI impI)
  let ?w = "wire_begin (cone n b)"
  have m: "wire_measure ?w = 1 + (\<Sum>c \<in> snd ` set (sigbit_driver_map n). cell_weight n c)"
    by (simp add: wire_measure_def wire_begin_def cone_def NetlistConeWireIter_at_def stack_size_def)
  show "length (fst (wire_seq (cone n b))) \<le> 1 + (\<Sum>c \<in> snd ` set (sigbit_driver_map n). cell_weight n c)"
    using wire_drain_length[of ?w] unfolding m wire_seq_def .
  show "distinct (expansions ?w)" using expansions_fresh[of ?w] by simp
next
  assume wf: "\<forall>c \<in> snd ` set (sigbit_driver_map n). \<exists>x xs. map_of (cell_inputs_map n) c = Some (x # xs)"
  show "\<exists>f. snd (wire_seq (cone n b)) = Inr f \<and> sentinel f"
    unfolding wire_seq_def
    by (rule wire_drain_no_fault) (use wf in \<open>simp_all add: wire_begin_def cone_def NetlistConeWireIter_at_def\<close>)
next
  assume a: "bitX \<noteq> bitY \<and> A \<noteq> B"
  then show "wire_seq (cone (Netlist_of (loop_module A B bitX bitY) id comb_types) bitX) =
          ([bitX, bitY, bitX],
           Inr \<lparr>net = Netlist_of (loop_module A B bitX bitY) id comb_types, sig = bitX,
                sentinel = True, dfs_path_stack = [], cells_visited = {B, A}\<rparr>)"
    by (simp add: loop_wire_seq)
  from a show "map (\<lambda>it. (sig it, A \<in> cells_visited it, fresh_driver it))
      (wire_trace (wire_begin (cone (Netlist_of (loop_module A B bitX bitY) id comb_types) bitX)))
      = [(bitX, False, Some A), (bitY, True, Some B), (bitX, True, None)]"
    by (simp add: loop_fresh_drivers)
qed

theorem cone_terminates_ring:
  "snd ` set (sigbit_driver_map (Netlist_of (loop_module ''A'' ''B'' (1::nat) 2) id comb_types)) = {''A'', ''B''}
   \<and> map_of (cell_inputs_map (Netlist_of (loop_module ''A'' ''B'' (1::nat) 2) id comb_types)) ''A'' = Some [2]
   \<and> map_of (cell_inputs_map (Netlist_of (loop_module ''A'' ''B'' (1::nat) 2) id comb_types)) ''B'' = Some [1]
   \<and> (1::nat) \<noteq> 2 \<and> ''A'' \<noteq> ''B''
   \<and> fst (wire_seq (cone (Netlist_of (loop_module ''A'' ''B'' (1::nat) 2) id comb_types) 1)) = [1, 2, 1]
   \<and> length (fst (wire_seq (cone (Netlist_of (loop_module ''A'' ''B'' (1::nat) 2) id comb_types) 1))) \<le> 5
   \<and> (\<exists>f. snd (wire_seq (cone (Netlist_of (loop_module ''A'' ''B'' (1::nat) 2) id comb_types) 1)) = Inr f
          \<and> sentinel f)
   \<and> map (\<lambda>it. (sig it, ''A'' \<in> cells_visited it, fresh_driver it))
        (wire_trace (wire_begin (cone (Netlist_of (loop_module ''A'' ''B'' (1::nat) 2) id comb_types) 1)))
       = [(1, False, Some ''A''), (2, True, Some ''B''), (1, True, None)]"
proof -
  let ?n = "Netlist_of (loop_module ''A'' ''B'' (1::nat) 2) id comb_types"
  have n1: "(1::nat) \<noteq> 2" and n2: "''A'' \<noteq> ''B''" by simp_all
  have dr: "snd ` set (sigbit_driver_map ?n) = {''A'', ''B''}" by (simp add: loop_netlist)
  have ia: "map_of (cell_inputs_map ?n) ''A'' = Some [2]" by (simp add: loop_netlist)
  have ib: "map_of (cell_inputs_map ?n) ''B'' = Some [1]" by (simp add: loop_netlist)
  have wf: "\<forall>c \<in> snd ` set (sigbit_driver_map ?n). \<exists>x xs. map_of (cell_inputs_map ?n) c = Some (x # xs)"
    unfolding dr using ia ib by simp
  have w: "(\<Sum>c \<in> snd ` set (sigbit_driver_map ?n). cell_weight ?n c) = 4"
    unfolding dr using ia ib by (simp add: cell_weight_def)
  note t = cone_terminates[of ?n 1 1 2 "''A''" "''B''"]
  have "length (fst (wire_seq (cone ?n 1))) \<le> 1 + (\<Sum>c \<in> snd ` set (sigbit_driver_map ?n). cell_weight ?n c)"
    using t by (rule conjunct1)
  then have len: "length (fst (wire_seq (cone ?n 1))) \<le> 5" unfolding w by simp
  have fin: "\<exists>f. snd (wire_seq (cone ?n 1)) = Inr f \<and> sentinel f"
    using t[THEN conjunct2, THEN conjunct2, THEN conjunct1] wf by (rule mp)
  have both: "wire_seq (cone ?n 1) =
          ([1, 2, 1], Inr \<lparr>net = ?n, sig = 1, sentinel = True, dfs_path_stack = [],
                           cells_visited = {''B'', ''A''}\<rparr>)
        \<and> map (\<lambda>it. (sig it, ''A'' \<in> cells_visited it, fresh_driver it)) (wire_trace (wire_begin (cone ?n 1)))
            = [(1, False, Some ''A''), (2, True, Some ''B''), (1, True, None)]"
    using t[THEN conjunct2, THEN conjunct2, THEN conjunct2] conjI[OF n1 n2] by (rule mp)
  from both have run: "fst (wire_seq (cone ?n 1)) = [1, 2, 1]" by simp
  from both have ex: "map (\<lambda>it. (sig it, ''A'' \<in> cells_visited it, fresh_driver it))
        (wire_trace (wire_begin (cone ?n 1)))
      = [(1, False, Some ''A''), (2, True, Some ''B''), (1, True, None)]"
    by (rule conjunct2)
  show ?thesis by (intro conjI) (rule dr ia ib n1 n2 run len fin ex)+
qed

text \<open>
  C1.  A cell without input bits in the cone keeps the traversal from reaching the sentinel,
  also on a ring.  In the module \<open>A = AND(bitY, w) -> bitX\<close>, \<open>B = NOT(bitX) -> bitY\<close>,
  \<open>c0 = ANYCONST -> w\<close>, with \<open>bitX, bitY, w\<close> being the bits \<open>1, 2, 3\<close>, the cone of \<open>bitX\<close>
  yields \<open>bitX, bitY, bitX, w\<close>; the next \<^verbatim>\<open>operator++\<close> expands \<open>c0\<close>, pushes the begin and
  end iterators of its empty input set and reads the end iterator.  The traversal does not
  end at the sentinel: what follows the read is undefined.
\<close>

theorem cone_ring_stops_at_fault:
  "wire_seq (cone (Netlist_of (ring_anyconst_module ''A'' ''B'' ''c0'' (1::nat) 2 3) id comb_types) 1)
     = ([1, 2, 1, 3], Inl EndIteratorDeref)"
  unfolding ring_anyconst_netlist by (simp add: wire_eval)

section \<open>The cell cone is the fan-in\<close>

text \<open>
  The cells that \<open>cell_cone n b\<close> yields are the drivers of the bits that the bit traversal
  \<open>cone n b\<close> yields, in the order in which that traversal first meets a bit driven by the
  cell; no cell is yielded twice; and every yielded cell is in the transitive combinational
  fan-in of the canonical start bit.  When every cell of that fan-in has a recorded,
  non-empty input set, the traversal runs to its end and the yielded cells are exactly the
  cells of the fan-in.
\<close>

theorem cell_cone_is_fanin:
  "fst (cell_seq (cell_cone n b)) =
     first_seen {} (List.map_filter (map_of (sigbit_driver_map n)) (fst (wire_seq (cone n b))))
   \<and> distinct (fst (cell_seq (cell_cone n b)))
   \<and> set (fst (cell_seq (cell_cone n b))) \<subseteq> fanin_cells n (sigmap n b)
   \<and> ((\<forall>c \<in> fanin_cells n (sigmap n b). \<exists>x xs. map_of (cell_inputs_map n) c = Some (x # xs)) \<longrightarrow>
        (\<exists>g. snd (cell_seq (cell_cone n b)) = Inr g)
        \<and> set (fst (cell_seq (cell_cone n b))) = fanin_cells n (sigmap n b))"
proof -
  let ?w = "NetlistConeWireIter_at n (sigmap n b)"
  have wb: "wire_begin (cone n b) = ?w" by (simp add: wire_begin_def cone_def)
  have nw: "net ?w = n" by (simp add: NetlistConeWireIter_at_def)
  from cell_seq_follows[of n b] have cs: "fst (cell_seq (cell_cone n b)) = expansions ?w"
    and en: "map_sum id sig_iter (snd (cell_seq (cell_cone n b))) = snd (wire_drain ?w)"
    by (simp_all add: wb wire_seq_def)
  have ord: "expansions ?w =
      first_seen {} (List.map_filter (map_of (sigbit_driver_map n)) (fst (wire_seq (cone n b))))"
    using expansions_first_seen[of ?w]
    by (simp add: wire_seq_def wb wire_drain_trace NetlistConeWireIter_at_def)
  have dis: "distinct (expansions ?w)" using expansions_fresh[of ?w] by simp
  have sub: "set (expansions ?w) \<subseteq> fanin_cells n (sigmap n b)"
    using expansions_sound[OF sound_inv_begin[of "sigmap n b" n]] nw by simp
  have full: "(\<exists>g. snd (cell_seq (cell_cone n b)) = Inr g) \<and> set (expansions ?w) = fanin_cells n (sigmap n b)"
    if ne: "\<forall>c \<in> fanin_cells n (sigmap n b). \<exists>x xs. map_of (cell_inputs_map n) c = Some (x # xs)"
  proof -
    have "\<exists>f. snd (wire_drain ?w) = Inr f"
      by (rule wire_drain_in_cone_no_fault[OF sound_inv_begin])
         (use ne in \<open>simp_all add: NetlistConeWireIter_at_def\<close>)
    then obtain f where f: "snd (wire_drain ?w) = Inr f" ..
    with en have "\<exists>g. snd (cell_seq (cell_cone n b)) = Inr g"
      by (cases "snd (cell_seq (cell_cone n b))") simp_all
    moreover have "set (expansions ?w) = fanin_cells n (sigmap n b)" using f by (rule expansions_are_fanin)
    ultimately show ?thesis by simp
  qed
  from ord dis sub full show ?thesis unfolding cs by blast
qed

theorem cell_cone_is_fanin_and_module:
  "map_of (cell_inputs_map (Netlist_of (and_module ''c1'' ''c2'' (1::nat) 2 3 4 5) id comb_types)) ''c1''
     = Some [1, 2]
   \<and> map_of (cell_inputs_map (Netlist_of (and_module ''c1'' ''c2'' (1::nat) 2 3 4 5) id comb_types)) ''c2''
     = Some [3, 4]
   \<and> fanin_cells (Netlist_of (and_module ''c1'' ''c2'' (1::nat) 2 3 4 5) id comb_types) 5 = {''c2'', ''c1''}
   \<and> (\<exists>g. snd (cell_seq (cell_cone (Netlist_of (and_module ''c1'' ''c2'' (1::nat) 2 3 4 5) id comb_types) 5)) = Inr g)
   \<and> fst (cell_seq (cell_cone (Netlist_of (and_module ''c1'' ''c2'' (1::nat) 2 3 4 5) id comb_types) 5))
       = [''c2'', ''c1'']
   \<and> fst (wire_seq (cone (Netlist_of (and_module ''c1'' ''c2'' (1::nat) 2 3 4 5) id comb_types) 5))
       = [5, 3, 4, 1, 2]
   \<and> first_seen {} (List.map_filter
        (map_of (sigbit_driver_map (Netlist_of (and_module ''c1'' ''c2'' (1::nat) 2 3 4 5) id comb_types)))
        (fst (wire_seq (cone (Netlist_of (and_module ''c1'' ''c2'' (1::nat) 2 3 4 5) id comb_types) 5))))
       = [''c2'', ''c1'']"
proof -
  let ?n = "Netlist_of (and_module ''c1'' ''c2'' (1::nat) 2 3 4 5) id comb_types"
  have d: "distinct [1::nat, 2, 3, 4, 5]" and c: "''c1'' \<noteq> ''c2''" by simp_all
  have i1: "map_of (cell_inputs_map ?n) ''c1'' = Some [1, 2]" by (simp add: and_netlist)
  have i2: "map_of (cell_inputs_map ?n) ''c2'' = Some [3, 4]" by (simp add: and_netlist)
  have dr: "snd ` set (sigbit_driver_map ?n) = {''c1'', ''c2''}" by (simp add: and_netlist)
  have sm: "sigmap ?n 5 = 5" by simp
  have ne: "\<forall>c \<in> fanin_cells ?n (sigmap ?n 5). \<exists>x xs. map_of (cell_inputs_map ?n) c = Some (x # xs)"
  proof
    fix c assume "c \<in> fanin_cells ?n (sigmap ?n 5)"
    then have "c \<in> snd ` set (sigbit_driver_map ?n)" by (rule fanin_cells_drive)
    with i1 i2 show "\<exists>x xs. map_of (cell_inputs_map ?n) c = Some (x # xs)" unfolding dr by auto
  qed
  have cs: "fst (cell_seq (cell_cone ?n 5)) = [''c2'', ''c1'']" using and_cell_seq[OF d c] .
  have ws: "fst (wire_seq (cone ?n 5)) = [5, 3, 4, 1, 2]" using and_wire_seq[OF d c] by simp
  note t = cell_cone_is_fanin[of ?n 5]
  have full: "(\<exists>g. snd (cell_seq (cell_cone ?n 5)) = Inr g)
        \<and> set (fst (cell_seq (cell_cone ?n 5))) = fanin_cells ?n (sigmap ?n 5)"
    using t[THEN conjunct2, THEN conjunct2, THEN conjunct2] ne by (rule mp)
  from full have ex: "\<exists>g. snd (cell_seq (cell_cone ?n 5)) = Inr g" by (rule conjunct1)
  from full have fan: "fanin_cells ?n 5 = {''c2'', ''c1''}" unfolding cs sm by simp
  from t[THEN conjunct1]
  have ord: "first_seen {} (List.map_filter (map_of (sigbit_driver_map ?n)) (fst (wire_seq (cone ?n 5))))
          = [''c2'', ''c1'']"
    unfolding cs by (rule sym)
  show ?thesis by (intro conjI) (rule i1 i2 fan ex cs ws ord)+
qed

text \<open>
  C3.  A cell of the fan-in without input bits ends the traversal before the fan-in is
  exhausted.  In the module \<open>c0 = ANYCONST -> w1\<close>, \<open>c1 = NOT(in0) -> w2\<close>,
  \<open>c2 = AND(w1, w2) -> out\<close>, with \<open>in0, w1, w2, out\<close> being the bits \<open>1, 2, 3, 4\<close>, the cell
  cone of \<open>out\<close> yields \<open>c2\<close> and \<open>c0\<close>; the next \<^verbatim>\<open>operator++\<close> expands \<open>c0\<close> and reads the end
  iterator of its empty input set.  The cell \<open>c1\<close>, which drives the input bit \<open>w2\<close> of \<open>c2\<close>
  and so is in the fan-in of \<open>out\<close>, is not yielded.
\<close>

theorem cell_cone_misses_fanin_cell:
  "cell_seq (cell_cone (Netlist_of (anyconst_and_module ''c0'' ''c1'' ''c2'' (1::nat) 2 3 4) id comb_types) 4)
     = ([''c2'', ''c0''], Inl EndIteratorDeref)
   \<and> ''c1'' \<in> fanin_cells (Netlist_of (anyconst_and_module ''c0'' ''c1'' ''c2'' (1::nat) 2 3 4) id comb_types) 4"
proof
  show "cell_seq (cell_cone (Netlist_of (anyconst_and_module ''c0'' ''c1'' ''c2'' (1::nat) 2 3 4) id comb_types) 4)
     = ([''c2'', ''c0''], Inl EndIteratorDeref)"
    unfolding anyconst_and_netlist by (simp add: cell_eval)
  let ?n = "Netlist_of (anyconst_and_module ''c0'' ''c1'' ''c2'' (1::nat) 2 3 4) id comb_types"
  have "''c2'' \<in> fanin_cells ?n 4"
    by (rule fanin_cells.driver) (unfold anyconst_and_netlist, simp)
  then show "''c1'' \<in> fanin_cells ?n 4"
    by (rule fanin_cells.input[where ins = "[2, 3]" and i = 3]) (unfold anyconst_and_netlist, simp_all)
qed

section \<open>What index construction records\<close>

text \<open>
  C5.  In the index built from a module, every key of the driver map is a canonical bit (a
  value of \<^verbatim>\<open>sigmap\<close>) that a classified cell of the module produces on an output port, and
  the entry is such a cell; every key of the inputs map is a classified cell of the module;
  and the entry of a bit is the last cell, in the module's enumeration order, among the
  classified cells that drive it.
\<close>

theorem index_construction_invariants:
  "(\<forall>sb c. map_of (sigbit_driver_map (Netlist_of m sm ct)) sb = Some c \<longrightarrow>
       sb \<in> range sm \<and>
       (\<exists>cell. (c, cell) \<in> set m \<and> cell_known ct (cell_type cell) \<and> drives_bit ct sm cell sb))
   \<and> (\<forall>c ins. map_of (cell_inputs_map (Netlist_of m sm ct)) c = Some ins \<longrightarrow>
       (\<exists>cell. (c, cell) \<in> set m \<and> cell_known ct (cell_type cell)))
   \<and> (\<forall>pre c cell post sb.
         m = pre @ (c, cell) # post \<and> cell_known ct (cell_type cell) \<and> drives_bit ct sm cell sb
         \<and> (\<forall>pc \<in> set post. cell_known ct (cell_type (snd pc)) \<longrightarrow> \<not> drives_bit ct sm (snd pc) sb)
         \<longrightarrow> map_of (sigbit_driver_map (Netlist_of m sm ct)) sb = Some c)"
proof (intro conjI allI impI)
  fix sb c assume a: "map_of (sigbit_driver_map (Netlist_of m sm ct)) sb = Some c"
  from setup_netlist_driver_origin[OF a[unfolded Netlist_of_def]]
  show ex: "\<exists>cell. (c, cell) \<in> set m \<and> cell_known ct (cell_type cell) \<and> drives_bit ct sm cell sb"
    by simp
  then show "sb \<in> range sm" by (auto simp: drives_bit_def)
next
  fix c ins assume a: "map_of (cell_inputs_map (Netlist_of m sm ct)) c = Some ins"
  from setup_netlist_inputs_origin[OF a[unfolded Netlist_of_def]]
  show "\<exists>cell. (c, cell) \<in> set m \<and> cell_known ct (cell_type cell)" by simp
next
  fix pre c cell post sb
  assume a: "m = pre @ (c, cell) # post \<and> cell_known ct (cell_type cell) \<and> drives_bit ct sm cell sb
         \<and> (\<forall>pc \<in> set post. cell_known ct (cell_type (snd pc)) \<longrightarrow> \<not> drives_bit ct sm (snd pc) sb)"
  then show "map_of (sigbit_driver_map (Netlist_of m sm ct)) sb = Some c"
    unfolding Netlist_of_def by (auto intro!: setup_netlist_last_driver)
qed

theorem index_construction_invariants_witness:
  "map_of (sigbit_driver_map (Netlist_of (shared_output_module ''c1'' ''c2'' (1::nat) 2 3) id comb_types)) 3
     = Some ''c2''
   \<and> map_of (cell_inputs_map (Netlist_of (shared_output_module ''c1'' ''c2'' (1::nat) 2 3) id comb_types)) ''c1''
     = Some [1]
   \<and> shared_output_module ''c1'' ''c2'' (1::nat) 2 3 =
       [(''c1'', \<lparr>cell_type = ''$not'', connections = [(''A'', [1]), (''Y'', [3])]\<rparr>)]
       @ (''c2'', \<lparr>cell_type = ''$not'', connections = [(''A'', [2]), (''Y'', [3])]\<rparr>) # []
   \<and> cell_known comb_types ''$not''
   \<and> drives_bit comb_types id \<lparr>cell_type = ''$not'', connections = [(''A'', [1::nat]), (''Y'', [3])]\<rparr> 3
   \<and> drives_bit comb_types id \<lparr>cell_type = ''$not'', connections = [(''A'', [2::nat]), (''Y'', [3])]\<rparr> 3
   \<and> (3::nat) \<in> range id
   \<and> (\<exists>cell. (''c2'', cell) \<in> set (shared_output_module ''c1'' ''c2'' (1::nat) 2 3)
         \<and> cell_known comb_types (cell_type cell) \<and> drives_bit comb_types id cell 3)
   \<and> (\<exists>cell. (''c1'', cell) \<in> set (shared_output_module ''c1'' ''c2'' (1::nat) 2 3)
         \<and> cell_known comb_types (cell_type cell))"
proof -
  let ?m = "shared_output_module ''c1'' ''c2'' (1::nat) 2 3"
  let ?c1 = "\<lparr>cell_type = ''$not'', connections = [(''A'', [1::nat]), (''Y'', [3])]\<rparr>"
  let ?c2 = "\<lparr>cell_type = ''$not'', connections = [(''A'', [2::nat]), (''Y'', [3])]\<rparr>"
  let ?n = "Netlist_of ?m id comb_types"
  note t = index_construction_invariants[of ?m id comb_types]
  have m: "?m = [(''c1'', ?c1)] @ (''c2'', ?c2) # []" by (simp add: shared_output_module_def)
  have k: "cell_known comb_types ''$not''" by (simp add: comb_types_def)
  have d1: "drives_bit comb_types id ?c1 3" by (simp add: drives_bit_def comb_types_def)
  have d2: "drives_bit comb_types id ?c2 3" by (simp add: drives_bit_def comb_types_def)
  have pre: "?m = [(''c1'', ?c1)] @ (''c2'', ?c2) # [] \<and> cell_known comb_types (cell_type ?c2)
      \<and> drives_bit comb_types id ?c2 3
      \<and> (\<forall>pc \<in> set []. cell_known comb_types (cell_type (snd pc)) \<longrightarrow> \<not> drives_bit comb_types id (snd pc) (3::nat))"
    using m k d2 by simp
  have drv: "map_of (sigbit_driver_map ?n) 3 = Some ''c2''"
    using t[THEN conjunct2, THEN conjunct2, THEN spec, THEN spec, THEN spec, THEN spec, THEN spec] pre
    by (rule mp)
  have inp: "map_of (cell_inputs_map ?n) ''c1'' = Some [1]"
    by (simp add: netlist_eval shared_output_module_def)
  have a: "(3::nat) \<in> range id \<and>
    (\<exists>cell. (''c2'', cell) \<in> set ?m \<and> cell_known comb_types (cell_type cell) \<and> drives_bit comb_types id cell 3)"
    using t[THEN conjunct1, THEN spec, THEN spec] drv by (rule mp)
  have b: "\<exists>cell. (''c1'', cell) \<in> set ?m \<and> cell_known comb_types (cell_type cell)"
    using t[THEN conjunct2, THEN conjunct1, THEN spec, THEN spec] inp by (rule mp)
  show ?thesis by (intro conjI) (rule drv inp m k d1 d2 a[THEN conjunct1] a[THEN conjunct2] b)+
qed

section \<open>The scenario of two AND cells\<close>

text \<open>
  C8, as amended.  In the module \<open>c1 = AND(in0, in1) -> w1\<close>, \<open>c2 = AND(w1, in2) -> out\<close>, with
  five different bits in any order, \<open>cone\<close> of \<open>out\<close> yields \<open>out\<close> first and then exactly the
  bits \<open>w1, in2, in0, in1\<close>, each once, with \<open>w1\<close> before \<open>in0\<close> and \<open>in1\<close>; \<open>cell_cone\<close> of
  \<open>out\<close> yields \<open>c2\<close> and then \<open>c1\<close>.
\<close>

theorem and_scenario:
  assumes "distinct [in0, in1, in2, w1, out]" "c1 \<noteq> c2"
  shows "\<exists>pre post.
           fst (wire_seq (cone (Netlist_of (and_module c1 c2 in0 in1 in2 w1 out) id comb_types) out))
             = out # pre @ w1 # post
         \<and> set (pre @ w1 # post) = {w1, in2, in0, in1} \<and> distinct (pre @ w1 # post)
         \<and> in0 \<in> set post \<and> in1 \<in> set post
         \<and> fst (cell_seq (cell_cone (Netlist_of (and_module c1 c2 in0 in1 in2 w1 out) id comb_types) out))
             = [c2, c1]"
proof (cases "w1 < in2")
  case True
  show ?thesis
    apply (rule exI[of _ "[]"])
    apply (rule exI[of _ "(if in0 < in1 then [in0, in1] else [in1, in0]) @ [in2]"])
    using True assms by (auto simp: and_wire_seq and_cell_seq)
next
  case False
  show ?thesis
    apply (rule exI[of _ "[in2]"])
    apply (rule exI[of _ "(if in0 < in1 then [in0, in1] else [in1, in0])"])
    using False assms by (auto simp: and_wire_seq and_cell_seq)
qed

theorem and_scenario_witness:
  "distinct [1::nat, 2, 3, 4, 5] \<and> ''c1'' \<noteq> ''c2''
   \<and> fst (wire_seq (cone (Netlist_of (and_module ''c1'' ''c2'' (1::nat) 2 3 4 5) id comb_types) 5))
       = [5, 3, 4, 1, 2]
   \<and> (\<exists>pre post.
         fst (wire_seq (cone (Netlist_of (and_module ''c1'' ''c2'' (1::nat) 2 3 4 5) id comb_types) 5))
           = 5 # pre @ 4 # post
         \<and> set (pre @ 4 # post) = {4, 3, 1, 2} \<and> distinct (pre @ 4 # post)
         \<and> 1 \<in> set post \<and> 2 \<in> set post)
   \<and> fst (cell_seq (cell_cone (Netlist_of (and_module ''c1'' ''c2'' (1::nat) 2 3 4 5) id comb_types) 5))
       = [''c2'', ''c1'']"
proof -
  let ?n = "Netlist_of (and_module ''c1'' ''c2'' (1::nat) 2 3 4 5) id comb_types"
  have d: "distinct [1::nat, 2, 3, 4, 5]" and c: "''c1'' \<noteq> ''c2''" by simp_all
  have ws: "fst (wire_seq (cone ?n 5)) = [5, 3, 4, 1, 2]" using and_wire_seq[OF d c] by simp
  from and_scenario[OF d c] obtain pre post where
    p: "fst (wire_seq (cone ?n 5)) = 5 # pre @ 4 # post"
       "set (pre @ 4 # post) = {4, 3, 1, 2}" "distinct (pre @ 4 # post)" "1 \<in> set post" "2 \<in> set post"
    and cs: "fst (cell_seq (cell_cone ?n 5)) = [''c2'', ''c1'']"
    by blast
  from p have ex: "\<exists>pre post. fst (wire_seq (cone ?n 5)) = 5 # pre @ 4 # post
         \<and> set (pre @ 4 # post) = {4, 3, 1, 2} \<and> distinct (pre @ 4 # post)
         \<and> 1 \<in> set post \<and> 2 \<in> set post" by blast
  show ?thesis by (intro conjI) (rule d c ws ex cs)+
qed

text \<open>C8 as stated fails: with \<open>in0, in1, in2, w1, out\<close> being the bits \<open>1, 2, 3, 4, 5\<close> the set of
  bits that \<open>cone\<close> of \<open>out\<close> yields is not \<open>{w1, in2, in0, in1}\<close>, since it contains \<open>out\<close>.\<close>

theorem and_scenario_excludes_out_counterexample:
  "set (fst (wire_seq (cone (Netlist_of (and_module ''c1'' ''c2'' (1::nat) 2 3 4 5) id comb_types) 5)))
     \<noteq> {4, 3, 1, 2}"
proof -
  have d: "distinct [1::nat, 2, 3, 4, 5]" and c: "''c1'' \<noteq> ''c2''" by simp_all
  have "(5::nat) \<in> set (fst (wire_seq (cone (Netlist_of (and_module ''c1'' ''c2'' (1::nat) 2 3 4 5) id comb_types) 5)))"
    unfolding and_wire_seq[OF d c] by simp
  moreover have "(5::nat) \<notin> {4, 3, 1, 2}" by simp
  ultimately show ?thesis by metis
qed


end
